theory Spec2Isabelle
  imports Main "HOL-Library.Multiset"
begin

section \<open>Python values used by \<open>pptx/shapes.py\<close>\<close>

text \<open>
  The exceptions the module can raise. \<open>ValueError\<close> carries its message, so that the
  one raised by the unmarshalling loop for a \<open>p:contentPart\<close> child is told apart from the
  one \<open>int()\<close> raises on a non-numeric string. \<open>OtherError\<close> is whatever a function of
  another module raises.
\<close>

datatype error = ValueError string | TypeError | KeyError string | AttributeError | OtherError string

subsection \<open>Decimal rendering: the \<open>%d\<close> conversion\<close>

definition digit_char :: "nat \<Rightarrow> char" where
  "digit_char d = ''0123456789'' ! d"

fun str_of_nat :: "nat \<Rightarrow> string" where
  "str_of_nat n = (if n < 10 then [digit_char n]
                   else str_of_nat (n div 10) @ [digit_char (n mod 10)])"

declare str_of_nat.simps [simp del]

text \<open>\<open>'%d' % i\<close> for a Python integer \<open>i\<close>.\<close>

definition str_of_int :: "int \<Rightarrow> string" where
  "str_of_int i = (if i < 0 then CHR ''-'' # str_of_nat (nat (- i)) else str_of_nat (nat i))"

text \<open>\<open>'%s %d' % (basename, numpart)\<close>, the pattern every shape name is built with.\<close>

definition fmt_name :: "string \<Rightarrow> int \<Rightarrow> string" where
  "fmt_name basename numpart = basename @ '' '' @ str_of_int numpart"

subsection \<open>Reading a decimal literal: \<open>int(s)\<close>\<close>

definition digit_of :: "char \<Rightarrow> nat option" where
  "digit_of c = (if c \<in> set ''0123456789'' then Some (of_char c - 48) else None)"

fun nat_of_digits :: "nat \<Rightarrow> string \<Rightarrow> nat option" where
  "nat_of_digits acc [] = Some acc"
| "nat_of_digits acc (c # cs) =
     (case digit_of c of None \<Rightarrow> None | Some d \<Rightarrow> nat_of_digits (10 * acc + d) cs)"

definition is_space :: "char \<Rightarrow> bool" where
  "is_space c = (c \<in> set [CHR '' '', CHR 0x09, CHR 0x0A, CHR 0x0B, CHR 0x0C, CHR 0x0D])"

definition strip :: "string \<Rightarrow> string" where
  "strip s = rev (dropWhile is_space (rev (dropWhile is_space s)))"

text \<open>
  \<open>int(s)\<close> for a string \<open>s\<close>: surrounding whitespace is dropped, one sign is allowed, and
  at least one ASCII digit must follow. \<open>None\<close> is the \<open>ValueError\<close> of \<open>int\<close>. (Digit
  grouping with underscores and non-ASCII digits, which some interpreter versions also
  accept, are read as failures here; XML Schema's \<open>unsignedInt\<close>, the type of a drawing
  element id, has neither.)
\<close>

definition py_int :: "string \<Rightarrow> int option" where
  "py_int s =
     (case strip s of
        [] \<Rightarrow> None
      | c # cs \<Rightarrow>
          if c = CHR ''-'' then
            (if cs = [] then None else map_option (\<lambda>n. - int n) (nat_of_digits 0 cs))
          else if c = CHR ''+'' then
            (if cs = [] then None else map_option int (nat_of_digits 0 cs))
          else map_option int (nat_of_digits 0 (c # cs)))"

section \<open>The markup tree\<close>

text \<open>
  An lxml element: its tag, its attributes (name, value) and its children in document
  order. Tags are written with their namespace prefix, as the argument of \<open>qn\<close> is.
\<close>

datatype elm = Elm (tag: string) (attrib: "(string \<times> string) list") (kids: "elm list")

text \<open>\<open>elm.get(key)\<close>: the attribute's value, or \<open>None\<close>.\<close>

definition elm_get :: "elm \<Rightarrow> string \<Rightarrow> string option" where
  "elm_get e k = map_of (attrib e) k"

text \<open>\<open>elm.append(child)\<close> for a child that is not yet part of any tree.\<close>

definition elm_append :: "elm \<Rightarrow> elm \<Rightarrow> elm" where
  "elm_append e child = Elm (tag e) (attrib e) (kids e @ [child])"

text \<open>
  An element lives in a document. The position of an element is the list of its ancestors,
  nearest first, each with the siblings to the left and to the right of the path.
\<close>

datatype frame = Frame (ftag: string) (fattrib: "(string \<times> string) list")
                       (lefts: "elm list") (rights: "elm list")

fun plug :: "frame list \<Rightarrow> elm \<Rightarrow> elm" where
  "plug [] e = e"
| "plug (Frame t a l r # fs) e = plug fs (Elm t a (l @ e # r))"

text \<open>All elements of a tree in document order, the element itself first.\<close>

fun iter :: "elm \<Rightarrow> elm list" where
  "iter (Elm t a ks) = Elm t a ks # concat (map iter ks)"

text \<open>
  Modelled from the spec: \<open>qn\<close> (\<open>pptx.oxml\<close>, not under \<open>src/\<close>) turns a prefixed tag name
  into the qualified name lxml uses. The tags are only compared with each other, so the
  prefixed name stands for the qualified one.
\<close>

definition NVGRPSPPR :: string where "NVGRPSPPR = ''p:nvGrpSpPr''"
definition GRPSPPR :: string where "GRPSPPR = ''p:grpSpPr''"
definition SP :: string where "SP = ''p:sp''"
definition GRPSP :: string where "GRPSP = ''p:grpSp''"
definition GRAPHICFRAME :: string where "GRAPHICFRAME = ''p:graphicFrame''"
definition CXNSP :: string where "CXNSP = ''p:cxnSp''"
definition PIC :: string where "PIC = ''p:pic''"
definition CONTENTPART :: string where "CONTENTPART = ''p:contentPart''"
definition EXTLST :: string where "EXTLST = ''p:extLst''"
definition CNVPR :: string where "CNVPR = ''p:cNvPr''"

text \<open>
  \<open>elm.xpath('//p:cNvPr')\<close>: the path is absolute, so it selects every \<open>p:cNvPr\<close> element of
  the document the element belongs to, in document order, wherever the element itself is.
\<close>

definition xpath_cNvPr :: "frame list \<Rightarrow> elm \<Rightarrow> elm list" where
  "xpath_cNvPr fs e = filter (\<lambda>x. tag x = CNVPR) (iter (plug fs e))"

text \<open>\<open>elm.xpath('//p:cNvPr/@name')\<close>: the \<open>name\<close> attributes those elements have.\<close>

definition xpath_cNvPr_name :: "frame list \<Rightarrow> elm \<Rightarrow> string list" where
  "xpath_cNvPr_name fs e = List.map_filter (\<lambda>x. elm_get x ''name'') (xpath_cNvPr fs e)"

section \<open>The id allocator\<close>

text \<open>\<open>int(cNvPr.get('id'))\<close>: \<open>int(None)\<close> is a \<open>TypeError\<close>, a non-numeric string a \<open>ValueError\<close>.\<close>

definition int_msg :: string where
  "int_msg = ''invalid literal for int() with base 10''"

definition cNvPr_id :: "elm \<Rightarrow> error + int" where
  "cNvPr_id cNvPr =
     (case elm_get cNvPr ''id'' of
        None \<Rightarrow> Inl TypeError
      | Some s \<Rightarrow> (case py_int s of None \<Rightarrow> Inl (ValueError int_msg) | Some i \<Rightarrow> Inr i))"

text \<open>The list comprehension \<open>[int(cNvPr.get('id')) for cNvPr in cNvPrs]\<close>.\<close>

fun cNvPr_ids :: "elm list \<Rightarrow> error + int list" where
  "cNvPr_ids [] = Inr []"
| "cNvPr_ids (x # xs) =
     (case cNvPr_id x of
        Inl err \<Rightarrow> Inl err
      | Inr i \<Rightarrow> (case cNvPr_ids xs of Inl err \<Rightarrow> Inl err | Inr is \<Rightarrow> Inr (i # is)))"

text \<open>
  The loop of \<open>__next_shape_id\<close> over the sorted ids: the first id greater than the
  candidate stops it, any other id moves the candidate one up.
\<close>

fun first_gap :: "int \<Rightarrow> int list \<Rightarrow> int" where
  "first_gap next_id [] = next_id"
| "first_gap next_id (i # ids) = (if i > next_id then next_id else first_gap (next_id + 1) ids)"

section \<open>Shapes\<close>

text \<open>
  The wrapper classes: \<open>_Shape\<close>, \<open>_Picture\<close>, \<open>_Table\<close> and \<open>_BaseShape\<close> hold the element
  they wrap; a nested \<open>_ShapeCollection\<close> holds its element and its own sequence of shapes.
\<close>

datatype shape =
    Shape elm
  | Picture elm
  | Table elm
  | BaseShape elm
  | ShapeCollection elm "shape list"

fun element :: "shape \<Rightarrow> elm" where
  "element (Shape e) = e"
| "element (Picture e) = e"
| "element (Table e) = e"
| "element (BaseShape e) = e"
| "element (ShapeCollection e shs) = e"

text \<open>\<open>_Placeholder(sp)\<close>, the overlay over a shape.\<close>

datatype placeholder = Placeholder shape

text \<open>
  Modelled from the spec, as parameters: what the module imports from the rest of the
  package and only calls: the properties of
  \<open>_BaseShape\<close>, \<open>_Placeholder\<close> and \<open>CT_GraphicalObjectFrame\<close> it reads, the table
  \<open>slide_ph_basenames\<close>, the constructor \<open>_AutoShapeType\<close> (which gives a basename and a
  preset geometry, or raises for an id it does not know), and the node builders
  \<open>CT_Picture.new_pic\<close>, \<open>CT_Shape.new_autoshape_sp\<close>, \<open>CT_Shape.new_textbox_sp\<close>,
  \<open>CT_GraphicalObjectFrame.new_table\<close> and \<open>CT_Shape.new_placeholder_sp\<close>, each of which
  gives a new element, or raises. None of them is defined in \<open>shapes.py\<close>, so a
  \<open>collab\<close> value carries them.
\<close>

record collab =
  has_table :: "elm \<Rightarrow> bool"
  is_placeholder :: "shape \<Rightarrow> bool"
  ph_type :: "placeholder \<Rightarrow> string"
  ph_orient :: "placeholder \<Rightarrow> string"
  ph_sz :: "placeholder \<Rightarrow> string"
  ph_idx :: "placeholder \<Rightarrow> int"
  slide_ph_basenames :: "(string \<times> string) list"
  AutoShapeType :: "int \<Rightarrow> error + string \<times> string"
  new_pic :: "int \<Rightarrow> string \<Rightarrow> string \<Rightarrow> string \<Rightarrow> int \<Rightarrow> int \<Rightarrow> int \<Rightarrow> int \<Rightarrow> error + elm"
  new_autoshape_sp :: "int \<Rightarrow> string \<Rightarrow> string \<Rightarrow> int \<Rightarrow> int \<Rightarrow> int \<Rightarrow> int \<Rightarrow> error + elm"
  new_textbox_sp :: "int \<Rightarrow> string \<Rightarrow> int \<Rightarrow> int \<Rightarrow> int \<Rightarrow> int \<Rightarrow> error + elm"
  new_table :: "int \<Rightarrow> string \<Rightarrow> int \<Rightarrow> int \<Rightarrow> int \<Rightarrow> int \<Rightarrow> int \<Rightarrow> int \<Rightarrow> error + elm"
  new_placeholder_sp :: "int \<Rightarrow> string \<Rightarrow> string \<Rightarrow> string \<Rightarrow> string \<Rightarrow> int \<Rightarrow> error + elm"

text \<open>
  The slide a top-level collection belongs to, seen through its one method \<open>_add_image\<close>:
  for a file it gives the image (its description and its scaling function) and the
  relationship (its \<open>rId\<close>), or raises.
\<close>

record image =
  desc :: string
  scale :: "int option \<Rightarrow> int option \<Rightarrow> int \<times> int"

record slide =
  add_image :: "string \<Rightarrow> error + image \<times> string"

text \<open>
  The state of a \<open>_ShapeCollection\<close>: the element it is backed by, where that element is in
  its document, the slide (\<open>None\<close> for a nested collection) and the sequence of shapes.
\<close>

record collection =
  spTree :: elm
  parents :: "frame list"
  slide :: "slide option"
  shapes :: "shape list"

subsection \<open>Unmarshalling\<close>

definition contentPart_msg :: string where
  "contentPart_msg = ''first time 'contentPart' shape encountered in the wild, please let developer know and send example''"

text \<open>
  The loop of \<open>__init__\<close> over \<open>spTree.iterchildren()\<close>. A \<open>p:grpSp\<close> child is unmarshalled by a
  nested \<open>_ShapeCollection(elm)\<close>, whose exception, if any, leaves the outer loop too.
\<close>

fun unmarshal :: "(elm \<Rightarrow> bool) \<Rightarrow> elm list \<Rightarrow> error + shape list" where
  "unmarshal ht [] = Inr []"
| "unmarshal ht (Elm t a ks # es) =
     (if t = NVGRPSPPR \<or> t = GRPSPPR \<or> t = EXTLST then unmarshal ht es
      else
        (case
           (if t = SP then Inr (Shape (Elm t a ks))
            else if t = PIC then Inr (Picture (Elm t a ks))
            else if t = GRPSP then
              (case unmarshal ht ks of
                 Inl err \<Rightarrow> Inl err
               | Inr shs \<Rightarrow> Inr (ShapeCollection (Elm t a ks) shs))
            else if t = GRAPHICFRAME then
              (if ht (Elm t a ks) then Inr (Table (Elm t a ks))
               else Inr (BaseShape (Elm t a ks)))
            else if t = CONTENTPART then Inl (ValueError contentPart_msg)
            else Inr (BaseShape (Elm t a ks)))
         of
           Inl err \<Rightarrow> Inl err
         | Inr sh \<Rightarrow>
             (case unmarshal ht es of Inl err \<Rightarrow> Inl err | Inr shs \<Rightarrow> Inr (sh # shs))))"

text \<open>\<open>_ShapeCollection(spTree, slide)\<close> for an element at position \<open>fs\<close> of its document.\<close>

definition init :: "collab \<Rightarrow> frame list \<Rightarrow> elm \<Rightarrow> slide option \<Rightarrow> error + collection" where
  "init env fs e sl =
     (case unmarshal (has_table env) (kids e) of
        Inl err \<Rightarrow> Inl err
      | Inr shs \<Rightarrow> Inr \<lparr>spTree = e, parents = fs, slide = sl, shapes = shs\<rparr>)"

subsection \<open>Placeholders of a collection\<close>

text \<open>The property \<open>placeholders\<close>; \<open>list.sort\<close> with a key is a stable sort.\<close>

definition placeholders :: "collab \<Rightarrow> collection \<Rightarrow> placeholder list" where
  "placeholders env c =
     sort_key (ph_idx env) (map Placeholder (filter (is_placeholder env) (shapes c)))"

subsection \<open>The allocators\<close>

text \<open>The ids and the names the two allocators read from the document of a collection.\<close>

definition scan_ids :: "collection \<Rightarrow> error + int list" where
  "scan_ids c = cNvPr_ids (xpath_cNvPr (parents c) (spTree c))"

definition scan_names :: "collection \<Rightarrow> string list" where
  "scan_names c = xpath_cNvPr_name (parents c) (spTree c)"

definition next_shape_id :: "collection \<Rightarrow> error + int" where
  "next_shape_id c =
     (case cNvPr_ids (xpath_cNvPr (parents c) (spTree c)) of
        Inl err \<Rightarrow> Inl err
      | Inr ids \<Rightarrow> Inr (first_gap 1 (sort ids)))"

text \<open>
  Modelled from the spec: the constants of \<open>pptx.spec\<close> (not under \<open>src/\<close>). The docstring
  of \<open>__next_ph_name\<close> gives \<open>'vert'\<close> for the vertical orientation; the three latent types
  are the date, slide number and footer types of the placeholder type enumeration.
\<close>

definition PH_ORIENT_VERT :: string where "PH_ORIENT_VERT = ''vert''"
definition PH_TYPE_DT :: string where "PH_TYPE_DT = ''dt''"
definition PH_TYPE_FTR :: string where "PH_TYPE_FTR = ''ftr''"
definition PH_TYPE_SLDNUM :: string where "PH_TYPE_SLDNUM = ''sldNum''"

text \<open>
  The \<open>while True\<close> loop of \<open>__next_ph_name\<close>. Nothing in the loop bounds the number of
  rounds, so the model is a partial function: \<open>None\<close> stands for a loop that never leaves.
\<close>

partial_function (option) ph_name_loop :: "string \<Rightarrow> string list \<Rightarrow> int \<Rightarrow> string option" where
  "ph_name_loop basename names numpart =
     (let name = fmt_name basename numpart in
      if name \<notin> set names then Some name
      else ph_name_loop basename names (numpart + 1))"

declare ph_name_loop.simps [code]

text \<open>
  \<open>__next_ph_name\<close>: \<open>slide_ph_basenames[ph_type]\<close> raises \<open>KeyError\<close> for a type the table does
  not have.
\<close>

definition next_ph_name ::
  "collab \<Rightarrow> collection \<Rightarrow> string \<Rightarrow> int \<Rightarrow> string \<Rightarrow> (error + string) option" where
  "next_ph_name env c ptype i orient =
     (case map_of (slide_ph_basenames env) ptype of
        None \<Rightarrow> Some (Inl (KeyError ptype))
      | Some basename0 \<Rightarrow>
          let basename = (if orient = PH_ORIENT_VERT then ''Vertical '' @ basename0
                          else basename0);
              numpart = i - 1;
              names = xpath_cNvPr_name (parents c) (spTree c)
          in map_option Inr (ph_name_loop basename names numpart))"

subsection \<open>Adding shapes\<close>

text \<open>\<open>self.__spTree.append(e)\<close> and \<open>self.__shapes.append(sh)\<close>.\<close>

definition spTree_append :: "collection \<Rightarrow> elm \<Rightarrow> collection" where
  "spTree_append c e = c\<lparr>spTree := elm_append (spTree c) e\<rparr>"

definition shapes_append :: "collection \<Rightarrow> shape \<Rightarrow> collection" where
  "shapes_append c sh = c\<lparr>shapes := shapes c @ [sh]\<rparr>"

text \<open>
  Every operation gives what it returns or raises, together with the collection as it
  is then. \<open>self.__slide\<close> is \<open>None\<close> in a nested collection, where \<open>add_picture\<close> raises
  \<open>AttributeError\<close>.
\<close>

definition add_picture ::
  "collab \<Rightarrow> collection \<Rightarrow> string \<Rightarrow> int \<Rightarrow> int \<Rightarrow> int option \<Rightarrow> int option
     \<Rightarrow> (error + shape) \<times> collection" where
  "add_picture env c file left top' width height =
     (case slide c of
        None \<Rightarrow> (Inl AttributeError, c)
      | Some sl \<Rightarrow>
          (case add_image sl file of
             Inl err \<Rightarrow> (Inl err, c)
           | Inr (img, rId) \<Rightarrow>
               (case next_shape_id c of
                  Inl err \<Rightarrow> (Inl err, c)
                | Inr i \<Rightarrow>
                    let name = fmt_name ''Picture'' (i - 1);
                        (width', height') = scale img width height
                    in (case new_pic env i name (desc img) rId left top' width' height' of
                          Inl err \<Rightarrow> (Inl err, c)
                        | Inr pic \<Rightarrow>
                            let c1 = spTree_append c pic;
                                picture = Picture pic;
                                c2 = shapes_append c1 picture
                            in (Inr picture, c2)))))"

definition add_shape ::
  "collab \<Rightarrow> collection \<Rightarrow> int \<Rightarrow> int \<Rightarrow> int \<Rightarrow> int \<Rightarrow> int \<Rightarrow> (error + shape) \<times> collection" where
  "add_shape env c autoshape_type_id left top' width height =
     (case AutoShapeType env autoshape_type_id of
        Inl err \<Rightarrow> (Inl err, c)
      | Inr (basename, prst) \<Rightarrow>
          (case next_shape_id c of
             Inl err \<Rightarrow> (Inl err, c)
           | Inr i \<Rightarrow>
               let name = fmt_name basename (i - 1)
               in (case new_autoshape_sp env i name prst left top' width height of
                     Inl err \<Rightarrow> (Inl err, c)
                   | Inr sp \<Rightarrow>
                       let shape = Shape sp;
                           c1 = spTree_append c sp;
                           c2 = shapes_append c1 shape
                       in (Inr shape, c2))))"

definition add_table ::
  "collab \<Rightarrow> collection \<Rightarrow> int \<Rightarrow> int \<Rightarrow> int \<Rightarrow> int \<Rightarrow> int \<Rightarrow> int
     \<Rightarrow> (error + shape) \<times> collection" where
  "add_table env c rows cols left top' width height =
     (case next_shape_id c of
        Inl err \<Rightarrow> (Inl err, c)
      | Inr i \<Rightarrow>
          let name = fmt_name ''Table'' (i - 1)
          in (case new_table env i name rows cols left top' width height of
                Inl err \<Rightarrow> (Inl err, c)
              | Inr graphicFrame \<Rightarrow>
                  let c1 = spTree_append c graphicFrame;
                      table = Table graphicFrame;
                      c2 = shapes_append c1 table
                  in (Inr table, c2)))"

definition add_textbox ::
  "collab \<Rightarrow> collection \<Rightarrow> int \<Rightarrow> int \<Rightarrow> int \<Rightarrow> int \<Rightarrow> (error + shape) \<times> collection" where
  "add_textbox env c left top' width height =
     (case next_shape_id c of
        Inl err \<Rightarrow> (Inl err, c)
      | Inr i \<Rightarrow>
          let name = fmt_name ''TextBox'' (i - 1)
          in (case new_textbox_sp env i name left top' width height of
                Inl err \<Rightarrow> (Inl err, c)
              | Inr sp \<Rightarrow>
                  let shape = Shape sp;
                      c1 = spTree_append c sp;
                      c2 = shapes_append c1 shape
                  in (Inr shape, c2)))"

subsection \<open>Cloning the placeholders of a layout\<close>

text \<open>
  \<open>__clone_layout_placeholder\<close>. The result is \<open>None\<close> when the name loop does not return.
\<close>

definition clone_layout_placeholder ::
  "collab \<Rightarrow> collection \<Rightarrow> placeholder \<Rightarrow> ((error + shape) \<times> collection) option" where
  "clone_layout_placeholder env c layout_ph =
     (case next_shape_id c of
        Inl err \<Rightarrow> Some (Inl err, c)
      | Inr i \<Rightarrow>
          let ptype = ph_type env layout_ph;
              orient = ph_orient env layout_ph
          in (case next_ph_name env c ptype i orient of
                None \<Rightarrow> None
              | Some (Inl err) \<Rightarrow> Some (Inl err, c)
              | Some (Inr shapename) \<Rightarrow>
                  let sz = ph_sz env layout_ph;
                      idx = ph_idx env layout_ph
                  in (case new_placeholder_sp env i shapename ptype orient sz idx of
                        Inl err \<Rightarrow> Some (Inl err, c)
                      | Inr sp \<Rightarrow>
                          let shape = Shape sp;
                              c1 = spTree_append c sp;
                              c2 = shapes_append c1 shape
                          in Some (Inr shape, c2))))"

definition latent_ph_types :: "string list" where
  "latent_ph_types = [PH_TYPE_DT, PH_TYPE_SLDNUM, PH_TYPE_FTR]"

text \<open>
  \<open>_clone_layout_placeholders\<close>, over the shapes of the layout's own collection (another
  document). An exception leaves the loop with the placeholders cloned so far in place.
\<close>

fun clone_layout_placeholders ::
  "collab \<Rightarrow> collection \<Rightarrow> shape list \<Rightarrow> ((error + unit) \<times> collection) option" where
  "clone_layout_placeholders env c [] = Some (Inr (), c)"
| "clone_layout_placeholders env c (sp # sps) =
     (if \<not> is_placeholder env sp then clone_layout_placeholders env c sps
      else
        let ph = Placeholder sp in
        if ph_type env ph \<in> set latent_ph_types then clone_layout_placeholders env c sps
        else
          (case clone_layout_placeholder env c ph of
             None \<Rightarrow> None
           | Some (Inl err, c') \<Rightarrow> Some (Inl err, c')
           | Some (Inr shape, c') \<Rightarrow> clone_layout_placeholders env c' sps))"

subsection \<open>Sequences of operations\<close>

datatype op =
    AddPicture string int int "int option" "int option"
  | AddShape int int int int int
  | AddTable int int int int int int
  | AddTextbox int int int int
  | CloneLayoutPlaceholders "shape list"

text \<open>The collection after one operation, whether it returned or raised.\<close>

fun apply_op :: "collab \<Rightarrow> collection \<Rightarrow> op \<Rightarrow> collection option" where
  "apply_op env c (AddPicture file left top' width height) =
     Some (snd (add_picture env c file left top' width height))"
| "apply_op env c (AddShape autoshape_type_id left top' width height) =
     Some (snd (add_shape env c autoshape_type_id left top' width height))"
| "apply_op env c (AddTable rows cols left top' width height) =
     Some (snd (add_table env c rows cols left top' width height))"
| "apply_op env c (AddTextbox left top' width height) =
     Some (snd (add_textbox env c left top' width height))"
| "apply_op env c (CloneLayoutPlaceholders layout) =
     map_option snd (clone_layout_placeholders env c layout)"

fun apply_ops :: "collab \<Rightarrow> collection \<Rightarrow> op list \<Rightarrow> collection option" where
  "apply_ops env c [] = Some c"
| "apply_ops env c (x # xs) =
     (case apply_op env c x of None \<Rightarrow> None | Some c' \<Rightarrow> apply_ops env c' xs)"

section \<open>Example documents\<close>

definition ex_cNvPr :: "string \<Rightarrow> string \<Rightarrow> elm" where
  "ex_cNvPr i name = Elm CNVPR [(''id'', i), (''name'', name)] []"

definition ex_sp :: "string \<Rightarrow> string \<Rightarrow> elm" where
  "ex_sp i name = Elm SP [] [Elm ''p:nvSpPr'' [] [ex_cNvPr i name], Elm ''p:spPr'' [] []]"

definition ex_grpSp :: "string \<Rightarrow> string \<Rightarrow> elm list \<Rightarrow> elm" where
  "ex_grpSp i name ks =
     Elm GRPSP [] ([Elm NVGRPSPPR [] [ex_cNvPr i name], Elm GRPSPPR [] []] @ ks)"

text \<open>A shape tree sits in \<open>p:sld/p:cSld\<close>; its own \<open>p:cNvPr\<close> has id 1.\<close>

definition ex_parents :: "frame list" where
  "ex_parents = [Frame ''p:cSld'' [] [] [], Frame ''p:sld'' [] [] [Elm ''p:clrMapOvr'' [] []]]"

definition ex_spTree :: "elm list \<Rightarrow> elm" where
  "ex_spTree ks =
     Elm ''p:spTree'' [] ([Elm NVGRPSPPR [] [ex_cNvPr ''1'' []], Elm GRPSPPR [] []] @ ks)"

definition ex_coll :: "elm list \<Rightarrow> shape list \<Rightarrow> collection" where
  "ex_coll ks shs = \<lparr>spTree = ex_spTree ks, parents = ex_parents, slide = None, shapes = shs\<rparr>"

text \<open>Ids 1, 2 and 4, the last one inside a group; and ids 1, 2 and 3.\<close>

definition ex_gap :: collection where
  "ex_gap = ex_coll [ex_grpSp ''2'' ''Group 1'' [ex_sp ''4'' ''Rectangle 3'']]
                    [ShapeCollection (ex_grpSp ''2'' ''Group 1'' [ex_sp ''4'' ''Rectangle 3''])
                       [Shape (ex_sp ''4'' ''Rectangle 3'')]]"

definition ex_full :: collection where
  "ex_full = ex_coll [ex_grpSp ''2'' ''Group 1'' [ex_sp ''3'' ''Rectangle 2'']]
                     [ShapeCollection (ex_grpSp ''2'' ''Group 1'' [ex_sp ''3'' ''Rectangle 2''])
                        [Shape (ex_sp ''3'' ''Rectangle 2'')]]"

subsection \<open>Example collaborators\<close>

definition ex_ph :: "shape \<Rightarrow> elm option" where
  "ex_ph sh = find (\<lambda>x. tag x = ''p:ph'') (iter (element sh))"

definition ex_ph_attr :: "string \<Rightarrow> string \<Rightarrow> placeholder \<Rightarrow> string" where
  "ex_ph_attr k dflt ph =
     (case ph of Placeholder sh \<Rightarrow>
        (case ex_ph sh of
           None \<Rightarrow> dflt
         | Some e \<Rightarrow> (case elm_get e k of None \<Rightarrow> dflt | Some v \<Rightarrow> v)))"

definition ex_nv :: "string \<Rightarrow> int \<Rightarrow> string \<Rightarrow> elm list \<Rightarrow> elm" where
  "ex_nv t i name ks = Elm t [] (Elm CNVPR [(''id'', str_of_int i), (''name'', name)] [] # ks)"

definition ex_xfrm :: "int \<Rightarrow> int \<Rightarrow> int \<Rightarrow> int \<Rightarrow> elm" where
  "ex_xfrm x y cx cy =
     Elm ''a:xfrm'' [(''x'', str_of_int x), (''y'', str_of_int y),
                     (''cx'', str_of_int cx), (''cy'', str_of_int cy)] []"

text \<open>
  Modelled from the spec: the node builders of \<open>pptx.oxml\<close>, the placeholder overlay of
  \<open>pptx.placeholder\<close>, \<open>_BaseShape.is_placeholder\<close>, \<open>has_table\<close>, \<open>_AutoShapeType\<close> and the
  table \<open>slide_ph_basenames\<close> of \<open>pptx.spec\<close> are not part of \<open>shapes.py\<close>. This is one
  instance of them: each builder makes a node of its kind that carries the given id and
  name on its one \<open>p:cNvPr\<close> element, the overlay reads the \<open>p:ph\<close> element of a shape, and
  a graphic frame has a table when an \<open>a:tbl\<close> element is inside it.
\<close>

definition ex_env :: collab where
  "ex_env =
     \<lparr>has_table = (\<lambda>e. list_ex (\<lambda>x. tag x = ''a:tbl'') (iter e)),
      is_placeholder = (\<lambda>sh. ex_ph sh \<noteq> None),
      ph_type = ex_ph_attr ''type'' ''obj'',
      ph_orient = ex_ph_attr ''orient'' ''horz'',
      ph_sz = ex_ph_attr ''sz'' ''full'',
      ph_idx = (\<lambda>ph. case py_int (ex_ph_attr ''idx'' ''0'' ph) of None \<Rightarrow> 0 | Some i \<Rightarrow> i),
      slide_ph_basenames =
        [(''title'', ''Title''), (''body'', ''Text Placeholder''),
         (''pic'', ''Picture Placeholder''), (''tbl'', ''Table Placeholder''),
         (''obj'', ''Content Placeholder''), (''dt'', ''Date Placeholder''),
         (''sldNum'', ''Slide Number Placeholder''), (''ftr'', ''Footer Placeholder'')],
      AutoShapeType =
        (\<lambda>i. if i = 1 then Inr (''Rectangle'', ''rect'')
             else if i = 9 then Inr (''Oval'', ''ellipse'')
             else Inl (KeyError (str_of_int i))),
      new_pic = (\<lambda>i name descr rId x y cx cy.
        Inr (Elm PIC []
               [ex_nv ''p:nvPicPr'' i name [],
                Elm ''p:blipFill'' [(''r:embed'', rId), (''descr'', descr)] [],
                Elm ''p:spPr'' [] [ex_xfrm x y cx cy]])),
      new_autoshape_sp = (\<lambda>i name prst x y cx cy.
        Inr (Elm SP []
               [ex_nv ''p:nvSpPr'' i name [],
                Elm ''p:spPr'' [(''prst'', prst)] [ex_xfrm x y cx cy]])),
      new_textbox_sp = (\<lambda>i name x y cx cy.
        Inr (Elm SP []
               [ex_nv ''p:nvSpPr'' i name [],
                Elm ''p:spPr'' [] [ex_xfrm x y cx cy],
                Elm ''p:txBody'' [] []])),
      new_table = (\<lambda>i name rows cols x y cx cy.
        if rows = 0 \<or> cols = 0 then Inl (OtherError ''ZeroDivisionError'')
        else
          Inr (Elm GRAPHICFRAME []
                 [ex_nv ''p:nvGraphicFramePr'' i name [],
                  ex_xfrm x y cx cy,
                  Elm ''a:tbl'' [(''w'', str_of_int (cx div cols)), (''h'', str_of_int (cy div rows))]
                    (replicate (nat rows) (Elm ''a:tr'' [] (replicate (nat cols) (Elm ''a:tc'' [] []))))])),
      new_placeholder_sp = (\<lambda>i name ptype orient sz idx.
        Inr (Elm SP []
               [ex_nv ''p:nvSpPr'' i name
                  [Elm ''p:nvPr'' []
                     [Elm ''p:ph'' [(''type'', ptype), (''orient'', orient), (''sz'', sz),
                                    (''idx'', str_of_int idx)] []]],
                Elm ''p:spPr'' [] []]))\<rparr>"

text \<open>Two shapes that already have the names a vertical body placeholder would get for ids 5 and 6.\<close>

definition ex_taken :: collection where
  "ex_taken = ex_coll [ex_sp ''2'' ''Vertical Text Placeholder 4'', ex_sp ''3'' ''Vertical Text Placeholder 5'']
                      [Shape (ex_sp ''2'' ''Vertical Text Placeholder 4''),
                       Shape (ex_sp ''3'' ''Vertical Text Placeholder 5'')]"

subsection \<open>The dispatch table and the reach of a content part\<close>

text \<open>
  The dispatch table as the specification words it, as a relation between a child
  element and the shape it is wrapped in; and the children that need a shape, which are
  all but the three structural ones.
\<close>

definition spec_variant :: "(elm \<Rightarrow> bool) \<Rightarrow> elm \<Rightarrow> shape \<Rightarrow> bool" where
  "spec_variant ht e sh =
     ((tag e = SP \<and> sh = Shape e)
      \<or> (tag e = PIC \<and> sh = Picture e)
      \<or> (tag e = GRPSP \<and>
           (case unmarshal ht (kids e) of Inl err \<Rightarrow> False | Inr shs \<Rightarrow> sh = ShapeCollection e shs))
      \<or> (tag e = GRAPHICFRAME \<and> ht e \<and> sh = Table e)
      \<or> (tag e = GRAPHICFRAME \<and> \<not> ht e \<and> sh = BaseShape e)
      \<or> (tag e = CXNSP \<and> sh = BaseShape e)
      \<or> (tag e \<notin> set [NVGRPSPPR, GRPSPPR, EXTLST, SP, PIC, GRPSP, GRAPHICFRAME, CXNSP, CONTENTPART]
           \<and> sh = BaseShape e))"

definition qualifying :: "elm list \<Rightarrow> elm list" where
  "qualifying es = filter (\<lambda>e. tag e \<notin> set [NVGRPSPPR, GRPSPPR, EXTLST]) es"

text \<open>
  A \<open>p:contentPart\<close> element among the children, or among the children of a \<open>p:grpSp\<close>
  child, and so on through nested groups.
\<close>

fun reaches_contentPart :: "elm list \<Rightarrow> bool" where
  "reaches_contentPart [] = False"
| "reaches_contentPart (Elm t a ks # es) =
     (t = CONTENTPART \<or> (t = GRPSP \<and> reaches_contentPart ks) \<or> reaches_contentPart es)"

text \<open>One child of every kind; a group that holds a content part; placeholders with idx 3, 1, 2.\<close>

definition ex_table_frame :: elm where
  "ex_table_frame =
     Elm GRAPHICFRAME [] [Elm ''p:nvGraphicFramePr'' [] [ex_cNvPr ''5'' ''Table 4''],
                          Elm ''a:graphic'' [] [Elm ''a:graphicData'' [] [Elm ''a:tbl'' [] []]]]"

definition ex_chart_frame :: elm where
  "ex_chart_frame =
     Elm GRAPHICFRAME [] [Elm ''p:nvGraphicFramePr'' [] [ex_cNvPr ''6'' ''Chart 5''],
                          Elm ''a:graphic'' [] [Elm ''a:graphicData'' [] [Elm ''c:chart'' [] []]]]"

definition ex_pic :: elm where
  "ex_pic = Elm PIC [] [Elm ''p:nvPicPr'' [] [ex_cNvPr ''3'' ''Picture 2'']]"

definition ex_cxnSp :: elm where
  "ex_cxnSp = Elm CXNSP [] [Elm ''p:nvCxnSpPr'' [] [ex_cNvPr ''7'' ''Connector 6'']]"

definition ex_unknown :: elm where
  "ex_unknown = Elm ''mc:AlternateContent'' [] []"

definition ex_kinds :: "elm list" where
  "ex_kinds =
     [Elm NVGRPSPPR [] [ex_cNvPr ''1'' []], Elm GRPSPPR [] [],
      ex_sp ''2'' ''Title 1'', ex_pic, ex_grpSp ''4'' ''Group 3'' [ex_sp ''8'' ''Oval 7''],
      ex_table_frame, ex_chart_frame, ex_cxnSp, ex_unknown, Elm EXTLST [] []]"

definition ex_nested_contentPart :: elm where
  "ex_nested_contentPart = ex_spTree [ex_grpSp ''2'' ''Group 1'' [Elm CONTENTPART [] []]]"

definition ex_ph_sp :: "string \<Rightarrow> string \<Rightarrow> string \<Rightarrow> string \<Rightarrow> string \<Rightarrow> elm" where
  "ex_ph_sp i name ptype orient idx =
     Elm SP [] [Elm ''p:nvSpPr'' []
                  [ex_cNvPr i name,
                   Elm ''p:nvPr'' []
                     [Elm ''p:ph'' [(''type'', ptype), (''orient'', orient), (''sz'', ''full''),
                                    (''idx'', idx)] []]]]"

definition ex_unsorted :: collection where
  "ex_unsorted =
     ex_coll [ex_ph_sp ''2'' ''Text Placeholder 1'' ''body'' ''horz'' ''3'',
              ex_sp ''3'' ''Rectangle 2'',
              ex_ph_sp ''4'' ''Title 3'' ''title'' ''horz'' ''1'',
              ex_ph_sp ''5'' ''Picture Placeholder 4'' ''pic'' ''horz'' ''2'']
             [Shape (ex_ph_sp ''2'' ''Text Placeholder 1'' ''body'' ''horz'' ''3''),
              Shape (ex_sp ''3'' ''Rectangle 2''),
              Shape (ex_ph_sp ''4'' ''Title 3'' ''title'' ''horz'' ''1''),
              Shape (ex_ph_sp ''5'' ''Picture Placeholder 4'' ''pic'' ''horz'' ''2'')]"

subsection \<open>Notions used in the proofs about unmarshalling\<close>

text \<open>The tags the loop passes over, and the wrapper of a child that is neither passed
  over, nor a group, nor a content part.\<close>

definition is_skipped :: "string \<Rightarrow> bool" where
  "is_skipped t = (t = NVGRPSPPR \<or> t = GRPSPPR \<or> t = EXTLST)"

definition leaf_shape :: "(elm \<Rightarrow> bool) \<Rightarrow> elm \<Rightarrow> shape" where
  "leaf_shape ht e =
     (if tag e = SP then Shape e
      else if tag e = PIC then Picture e
      else if tag e = GRAPHICFRAME then (if ht e then Table e else BaseShape e)
      else BaseShape e)"

subsection \<open>Notions used in the proofs about adding and cloning\<close>

text \<open>
  What the document scans see of a \<open>p:cNvPr\<close> element is its attributes. \<open>doc_attribs\<close> is
  the list of these for the document of a collection, \<open>id_of_attrib\<close> what \<open>int(get('id'))\<close>
  gives for them.
\<close>

definition doc_attribs :: "collection \<Rightarrow> (string \<times> string) list list" where
  "doc_attribs c = map attrib (xpath_cNvPr (parents c) (spTree c))"

definition id_of_attrib :: "(string \<times> string) list \<Rightarrow> error + int" where
  "id_of_attrib a = cNvPr_id (Elm CNVPR a [])"

definition node_info :: "elm \<Rightarrow> string \<times> (string \<times> string) list" where
  "node_info x = (tag x, attrib x)"

text \<open>
  Modelled from the spec: the node builders (\<open>pptx.oxml\<close>, not under \<open>src/\<close>) construct, given
  an id and a name, a new well-formed node of their kind. \<open>carries e i name\<close> says that the
  node \<open>e\<close> has one \<open>p:cNvPr\<close> element and that it holds the id \<open>i\<close> and the name \<open>name\<close>;
  \<open>builders_ok\<close> says that every node a builder returns is of the builder's kind and
  carries the id and the name the builder was given.
\<close>

definition carries :: "elm \<Rightarrow> int \<Rightarrow> string \<Rightarrow> bool" where
  "carries e i name =
     (case filter (\<lambda>x. tag x = CNVPR) (iter e) of
        [x] \<Rightarrow> cNvPr_id x = Inr i \<and> elm_get x ''name'' = Some name
      | _ \<Rightarrow> False)"

definition builders_ok :: "collab \<Rightarrow> bool" where
  "builders_ok env =
     ((\<forall>i name descr rId x y cx cy e.
         new_pic env i name descr rId x y cx cy = Inr e \<longrightarrow> tag e = PIC \<and> carries e i name)
      \<and> (\<forall>i name prst x y cx cy e.
         new_autoshape_sp env i name prst x y cx cy = Inr e \<longrightarrow> tag e = SP \<and> carries e i name)
      \<and> (\<forall>i name x y cx cy e.
         new_textbox_sp env i name x y cx cy = Inr e \<longrightarrow> tag e = SP \<and> carries e i name)
      \<and> (\<forall>i name rows cols x y cx cy e.
         new_table env i name rows cols x y cx cy = Inr e \<longrightarrow>
           tag e = GRAPHICFRAME \<and> carries e i name)
      \<and> (\<forall>i name ptype orient sz idx e.
         new_placeholder_sp env i name ptype orient sz idx = Inr e \<longrightarrow>
           tag e = SP \<and> carries e i name))"

text \<open>The two appends every operation ends with.\<close>

definition appended :: "collection \<Rightarrow> elm \<Rightarrow> shape \<Rightarrow> collection" where
  "appended c n sh = shapes_append (spTree_append c n) sh"

text \<open>
  One shape added by an \<open>add_\<close> operation: the id is the next shape id and the name is a
  basename with the id less one. One shape added by a clone: the number in the name is the
  first from the id less one on whose name is free.
\<close>

definition add_step :: "collection \<Rightarrow> collection \<Rightarrow> bool" where
  "add_step c c' =
     (\<exists>i b n sh. next_shape_id c = Inr i \<and> carries n i (fmt_name b (i - 1))
        \<and> \<not> is_skipped (tag n) \<and> element sh = n \<and> c' = appended c n sh)"

definition clone_step :: "collection \<Rightarrow> collection \<Rightarrow> bool" where
  "clone_step c c' =
     (\<exists>i b k n sh. next_shape_id c = Inr i \<and> i - 1 \<le> k
        \<and> fmt_name b k \<notin> set (scan_names c)
        \<and> (\<forall>m. i - 1 \<le> m \<and> m < k \<longrightarrow> fmt_name b m \<in> set (scan_names c))
        \<and> carries n i (fmt_name b k)
        \<and> \<not> is_skipped (tag n) \<and> element sh = n \<and> c' = appended c n sh)"

definition op_step :: "collection \<Rightarrow> collection \<Rightarrow> bool" where
  "op_step c c' = (add_step c c' \<or> clone_step c c')"

subsection \<open>The invariants\<close>

text \<open>Every \<open>p:cNvPr\<close> element of the document has an id that reads as an integer, and no
  two have the same.\<close>

definition ids_distinct :: "collection \<Rightarrow> bool" where
  "ids_distinct c = (case scan_ids c of Inl err \<Rightarrow> False | Inr ids \<Rightarrow> distinct ids)"

definition names_distinct :: "collection \<Rightarrow> bool" where
  "names_distinct c = distinct (scan_names c)"

text \<open>
  The naming convention: a name that reads as a basename, a space and a number belongs to
  the element whose id is that number plus one.
\<close>

definition follows_convention :: "collection \<Rightarrow> bool" where
  "follows_convention c =
     (\<forall>a\<in>set (doc_attribs c). \<forall>b n.
        map_of a ''name'' = Some (fmt_name b n) \<longrightarrow> id_of_attrib a = Inr (n + 1))"


text \<open>A top-level collection with a slide, the shapes of a layout, and a sequence of operations.\<close>

definition ex_slide :: slide where
  "ex_slide =
     \<lparr>add_image = (\<lambda>f. Inr (\<lparr>desc = f,
                               scale = (\<lambda>w h. (case w of None \<Rightarrow> 100 | Some v \<Rightarrow> v,
                                               case h of None \<Rightarrow> 50 | Some v \<Rightarrow> v))\<rparr>,
                             ''rId2''))\<rparr>"

definition ex_top :: collection where
  "ex_top = ex_gap\<lparr>slide := Some ex_slide\<rparr>"

definition ex_layout :: "shape list" where
  "ex_layout =
     [Shape (ex_ph_sp ''2'' ''Title 1'' ''title'' ''horz'' ''0''),
      Shape (ex_ph_sp ''3'' ''Date Placeholder 2'' ''dt'' ''horz'' ''10''),
      Shape (ex_sp ''4'' ''Rectangle 3''),
      Shape (ex_ph_sp ''5'' ''Text Placeholder 4'' ''body'' ''vert'' ''1''),
      Shape (ex_ph_sp ''6'' ''Slide Number Placeholder 5'' ''sldNum'' ''horz'' ''11''),
      Shape (ex_ph_sp ''7'' ''Footer Placeholder 6'' ''ftr'' ''horz'' ''12'')]"

definition ex_ops :: "op list" where
  "ex_ops = [AddTextbox 0 0 10 10, CloneLayoutPlaceholders ex_layout,
             AddPicture ''a.png'' 0 0 None None, AddShape 1 0 0 5 5, AddTable 2 3 0 0 300 200]"


text \<open>A picture that was renamed, or that is left after the shape with id 2 was deleted.\<close>

definition ex_renamed :: collection where
  "ex_renamed =
     (ex_coll [Elm PIC [] [Elm ''p:nvPicPr'' [] [ex_cNvPr ''3'' ''Picture 1'']]]
              [Picture (Elm PIC [] [Elm ''p:nvPicPr'' [] [ex_cNvPr ''3'' ''Picture 1'']])])
       \<lparr>slide := Some ex_slide\<rparr>"

subsection \<open>What cloning is to produce\<close>

text \<open>
  The shapes of a layout that are cloned: the placeholders whose type is not date, slide
  number or footer. And the nodes the placeholder builder gives for a list of such shapes
  with a list of ids and a list of names, each from the type, orientation, size and idx
  of its layout placeholder.
\<close>

definition cloneable :: "collab \<Rightarrow> shape \<Rightarrow> bool" where
  "cloneable env sp =
     (is_placeholder env sp
      \<and> ph_type env (Placeholder sp) \<notin> set [PH_TYPE_DT, PH_TYPE_SLDNUM, PH_TYPE_FTR])"

definition cloned_nodes :: "collab \<Rightarrow> shape list \<Rightarrow> int list \<Rightarrow> string list \<Rightarrow> (error + elm) list" where
  "cloned_nodes env sps ids names =
     map (\<lambda>(sp, i, name).
            new_placeholder_sp env i name (ph_type env (Placeholder sp))
              (ph_orient env (Placeholder sp)) (ph_sz env (Placeholder sp))
              (ph_idx env (Placeholder sp)))
         (zip sps (zip ids names))"

text \<open>The layout of the examples with one more placeholder, of a type the example table lacks.\<close>

definition ex_layout_chart :: "shape list" where
  "ex_layout_chart = ex_layout @ [Shape (ex_ph_sp ''8'' ''Chart Placeholder 7'' ''chart'' ''horz'' ''2'')]"

text \<open>
  The layout can be cloned without an exception: every shape of it that is cloned has a
  type with a basename in the table, and the placeholder builder returns a node for it
  whatever the id and the name.
\<close>

definition clone_ready :: "collab \<Rightarrow> shape list \<Rightarrow> bool" where
  "clone_ready env layout =
     (\<forall>sp\<in>set layout. cloneable env sp \<longrightarrow>
        map_of (slide_ph_basenames env) (ph_type env (Placeholder sp)) \<noteq> None
        \<and> (\<forall>i name. \<exists>e.
              new_placeholder_sp env i name (ph_type env (Placeholder sp))
                (ph_orient env (Placeholder sp)) (ph_sz env (Placeholder sp))
                (ph_idx env (Placeholder sp)) = Inr e))"

section \<open>Strings and numbers\<close>

lemma digit_char_in: "d < 10 \<Longrightarrow> digit_char d \<in> set ''0123456789''"
  unfolding digit_char_def by (rule nth_mem) simp

lemma digit_of_digit_char: "d < 10 \<Longrightarrow> digit_of (digit_char d) = Some d"
proof -
  assume "d < 10"
  then have "d \<in> {0,1,2,3,4,5,6,7,8,9}" by auto
  then show ?thesis
    by (auto simp: digit_of_def digit_char_def)
qed

lemma nat_of_digits_append:
  "nat_of_digits acc (xs @ ys) = (case nat_of_digits acc xs of None \<Rightarrow> None | Some a \<Rightarrow> nat_of_digits a ys)"
  by (induction xs arbitrary: acc) (auto split: option.splits)

lemma nat_of_digits_str_of_nat: "nat_of_digits 0 (str_of_nat n) = Some n"
proof (induction n rule: str_of_nat.induct)
  case (1 n)
  show ?case
  proof (cases "n < 10")
    case True
    then show ?thesis by (subst str_of_nat.simps) (simp add: digit_of_digit_char)
  next
    case False
    with 1 have "nat_of_digits 0 (str_of_nat (n div 10)) = Some (n div 10)" by simp
    with False show ?thesis
      by (subst str_of_nat.simps) (simp add: nat_of_digits_append digit_of_digit_char)
  qed
qed

lemma str_of_nat_digits: "set (str_of_nat n) \<subseteq> set ''0123456789''"
proof (induction n rule: str_of_nat.induct)
  case (1 n)
  show ?case
  proof (cases "n < 10")
    case True
    then show ?thesis using digit_char_in[of n] by (subst str_of_nat.simps) simp
  next
    case False
    with 1 have "set (str_of_nat (n div 10)) \<subseteq> set ''0123456789''" by simp
    moreover have "digit_char (n mod 10) \<in> set ''0123456789''" by (rule digit_char_in) simp
    ultimately show ?thesis using False
      by (subst str_of_nat.simps) simp
  qed
qed

lemma str_of_nat_ne: "str_of_nat n \<noteq> []"
  by (subst str_of_nat.simps) simp

lemma digits_no_space: "c \<in> set ''-0123456789'' \<Longrightarrow> \<not> is_space c"
  by (auto simp: is_space_def)

lemma str_of_int_chars: "set (str_of_int i) \<subseteq> set ''-0123456789''"
proof (cases "i < 0")
  case True
  have "set (str_of_nat (nat (- i))) \<subseteq> set ''-0123456789''"
    using str_of_nat_digits[of "nat (- i)"] by (rule subset_trans) (simp add: subset_insertI2)
  with True show ?thesis by (simp add: str_of_int_def)
next
  case False
  have "set (str_of_nat (nat i)) \<subseteq> set ''-0123456789''"
    using str_of_nat_digits[of "nat i"] by (rule subset_trans) (simp add: subset_insertI2)
  with False show ?thesis by (simp add: str_of_int_def)
qed

lemma str_of_int_no_space: "c \<in> set (str_of_int i) \<Longrightarrow> \<not> is_space c"
  using str_of_int_chars[of i] digits_no_space[of c] by blast

lemma strip_id: "s \<noteq> [] \<Longrightarrow> \<forall>c\<in>set s. \<not> is_space c \<Longrightarrow> strip s = s"
proof -
  assume ne: "s \<noteq> []" and ns: "\<forall>c\<in>set s. \<not> is_space c"
  have dw: "dropWhile is_space xs = xs" if "\<forall>c\<in>set xs. \<not> is_space c" for xs
    using that by (cases xs) auto
  show ?thesis using ns by (simp add: strip_def dw)
qed

lemma str_of_int_ne: "str_of_int i \<noteq> []"
  by (simp add: str_of_int_def str_of_nat_ne)

lemma hd_str_of_nat: "hd (str_of_nat n) \<in> set ''0123456789''"
  using str_of_nat_digits[of n] str_of_nat_ne[of n] by (cases "str_of_nat n") auto

lemma py_int_str_of_int: "py_int (str_of_int i) = Some i"
proof -
  have s: "strip (str_of_int i) = str_of_int i"
    by (rule strip_id) (auto simp: str_of_int_ne dest: str_of_int_no_space)
  show ?thesis
  proof (cases "i < 0")
    case True
    then show ?thesis
      by (simp add: py_int_def s) (simp add: str_of_int_def str_of_nat_ne nat_of_digits_str_of_nat)
  next
    case False
    obtain c cs where cs: "str_of_nat (nat i) = c # cs"
      using str_of_nat_ne[of "nat i"] by (cases "str_of_nat (nat i)") auto
    have "c \<in> set ''0123456789''" using hd_str_of_nat[of "nat i"] cs by simp
    then have "c \<noteq> CHR ''-''" "c \<noteq> CHR ''+''" by auto
    moreover have "nat_of_digits 0 (c # cs) = Some (nat i)"
      using nat_of_digits_str_of_nat[of "nat i"] cs by simp
    ultimately show ?thesis using False cs
      by (simp add: py_int_def s) (simp add: str_of_int_def)
  qed
qed

lemma str_of_int_inj: "str_of_int i = str_of_int j \<Longrightarrow> i = j"
  by (metis py_int_str_of_int option.inject)

lemma split_last_space:
  assumes "xs @ c # s = ys @ c # t" "c \<notin> set s" "c \<notin> set t"
  shows "xs = ys \<and> s = t"
proof -
  have a: "takeWhile (\<lambda>x. x \<noteq> c) (rev (xs @ c # s)) = rev s"
    using assms(2) by (auto simp: takeWhile_tail)
  have b: "takeWhile (\<lambda>x. x \<noteq> c) (rev (ys @ c # t)) = rev t"
    using assms(3) by (auto simp: takeWhile_tail)
  from assms(1) have "rev (xs @ c # s) = rev (ys @ c # t)" by (rule arg_cong)
  with a b have "rev s = rev t" by (simp only:)
  then have "s = t" by simp
  with assms(1) show ?thesis by simp
qed

lemma fmt_name_inj: "fmt_name b i = fmt_name b' j \<Longrightarrow> b = b' \<and> i = j"
proof -
  assume h: "fmt_name b i = fmt_name b' j"
  have sp: "CHR '' '' \<notin> set (str_of_int k)" for k
    using str_of_int_no_space[of "CHR '' ''" k] by (auto simp: is_space_def)
  from h have "b @ CHR '' '' # str_of_int i = b' @ CHR '' '' # str_of_int j"
    by (simp add: fmt_name_def)
  from split_last_space[OF this sp sp] show ?thesis by (auto dest: str_of_int_inj)
qed

lemma str_of_nat_small: "n < 10 \<Longrightarrow> str_of_nat n = [digit_char n]"
  by (subst str_of_nat.simps) simp

lemma str_of_nat_big: "\<not> n < 10 \<Longrightarrow> str_of_nat n = str_of_nat (n div 10) @ [digit_char (n mod 10)]"
  by (subst str_of_nat.simps) simp

lemmas str_eval = fmt_name_def str_of_int_def str_of_nat_small str_of_nat_big digit_char_def

section \<open>The id allocator returns the first gap\<close>

lemma first_gap_ge: "n \<le> first_gap n ids"
proof (induction ids arbitrary: n)
  case Nil
  show ?case by simp
next
  case (Cons i ids)
  from Cons[of "n + 1"] show ?case by simp
qed

lemma first_gap_fresh: "sorted ids \<Longrightarrow> first_gap n ids \<notin> set ids"
proof (induction ids arbitrary: n)
  case Nil
  show ?case by simp
next
  case (Cons i ids)
  show ?case
  proof (cases "i > n")
    case True
    with Cons.prems show ?thesis by auto
  next
    case False
    from Cons.prems have "sorted ids" by simp
    from Cons.IH[OF this, of "n + 1"] first_gap_ge[of "n + 1" ids] False
    show ?thesis by simp
  qed
qed

lemma first_gap_least:
  "sorted ids \<Longrightarrow> distinct ids \<Longrightarrow> \<forall>i\<in>set ids. n \<le> i \<Longrightarrow> n \<le> m \<Longrightarrow> m < first_gap n ids
     \<Longrightarrow> m \<in> set ids"
proof (induction ids arbitrary: n)
  case Nil
  then show ?case by simp
next
  case (Cons i ids)
  show ?case
  proof (cases "i > n")
    case True
    with Cons.prems show ?thesis by simp
  next
    case False
    with Cons.prems have i: "i = n" by simp
    show ?thesis
    proof (cases "m = n")
      case True
      with i show ?thesis by simp
    next
      case False
      have lb: "\<forall>j\<in>set ids. n + 1 \<le> j"
      proof
        fix j assume j: "j \<in> set ids"
        with Cons.prems(2) have "j \<noteq> i" by auto
        moreover from j Cons.prems(3) have "n \<le> j" by simp
        ultimately show "n + 1 \<le> j" using i by simp
      qed
      from Cons.prems i have lt: "m < first_gap (n + 1) ids" by simp
      from Cons.prems False have "n + 1 \<le> m" by simp
      from Cons.IH[OF _ _ lb this lt] Cons.prems show ?thesis by simp
    qed
  qed
qed

lemma next_shape_id_scan:
  "next_shape_id c = (case scan_ids c of Inl err \<Rightarrow> Inl err | Inr ids \<Rightarrow> Inr (first_gap 1 (sort ids)))"
  by (simp add: next_shape_id_def scan_ids_def)

lemma next_shape_id_fresh:
  "next_shape_id c = Inr n \<Longrightarrow> \<exists>ids. scan_ids c = Inr ids \<and> n \<notin> set ids \<and> 0 < n"
proof -
  assume h: "next_shape_id c = Inr n"
  then obtain ids where ids: "scan_ids c = Inr ids" and n: "n = first_gap 1 (sort ids)"
    by (auto simp: next_shape_id_scan split: sum.splits)
  have "first_gap 1 (sort ids) \<notin> set (sort ids)" by (rule first_gap_fresh) simp
  with n have "n \<notin> set ids" by simp
  moreover from n first_gap_ge[of 1 "sort ids"] have "0 < n" by simp
  ultimately show ?thesis using ids by blast
qed

text \<open>
  C3. When the \<open>p:cNvPr\<close> elements of the document carry distinct positive ids,
  \<open>__next_shape_id\<close> returns the smallest positive integer that is none of them: 3 for the
  ids 1, 2, 4 and 4 for the ids 1, 2, 3.
\<close>

theorem next_shape_id_smallest_unused:
  assumes "scan_ids c = Inr ids" and "distinct ids" and "\<forall>i\<in>set ids. 0 < i"
  shows "\<exists>n. next_shape_id c = Inr n \<and> 0 < n \<and> n \<notin> set ids
           \<and> (\<forall>m. 0 < m \<and> m < n \<longrightarrow> m \<in> set ids)"
proof -
  let ?n = "first_gap 1 (sort ids)"
  have r: "next_shape_id c = Inr ?n" using assms(1) by (simp add: next_shape_id_scan)
  have pos: "0 < ?n" using first_gap_ge[of 1 "sort ids"] by simp
  have fresh: "?n \<notin> set ids" using first_gap_fresh[of "sort ids" 1] by simp
  have least: "m \<in> set ids" if "0 < m" "m < ?n" for m
  proof -
    have "\<forall>i\<in>set (sort ids). 1 \<le> i" using assms(3) by fastforce
    from first_gap_least[OF _ _ this, of m] that assms(2) show ?thesis by simp
  qed
  from r pos fresh least show ?thesis by blast
qed

theorem next_shape_id_smallest_unused_witness:
  "scan_ids ex_gap = Inr [1, 2, 4] \<and> next_shape_id ex_gap = Inr 3
   \<and> scan_ids ex_full = Inr [1, 2, 3] \<and> next_shape_id ex_full = Inr 4"
proof -
  have a: "scan_ids ex_gap = Inr [1, 2, 4]" by code_simp
  have b: "scan_ids ex_full = Inr [1, 2, 3]" by code_simp
  from next_shape_id_smallest_unused[OF a] obtain n where
    n: "next_shape_id ex_gap = Inr n" "0 < n" "n \<notin> set [1, 2, 4]"
       "\<forall>m. 0 < m \<and> m < n \<longrightarrow> m \<in> set [1, 2, 4]"
    by auto
  from spec[OF n(4), of 3] have "\<not> 3 < n" by simp
  with n(2,3) have "n = 3" by simp
  from next_shape_id_smallest_unused[OF b] obtain k where
    k: "next_shape_id ex_full = Inr k" "0 < k" "k \<notin> set [1, 2, 3]"
       "\<forall>m. 0 < m \<and> m < k \<longrightarrow> m \<in> set [1, 2, 3]"
    by auto
  from spec[OF k(4), of 4] have "\<not> 4 < k" by simp
  with k(2,3) have "k = 4" by simp
  from a b n(1) k(1) \<open>n = 3\<close> \<open>k = 4\<close> show ?thesis by simp
qed

section \<open>The placeholder name allocator\<close>

lemma fmt_name_inj_num: "fmt_name b i = fmt_name b j \<Longrightarrow> i = j"
  using fmt_name_inj by blast

lemma ph_name_loop_hit:
  "fmt_name b n \<notin> set names \<Longrightarrow> ph_name_loop b names n = Some (fmt_name b n)"
  by (subst ph_name_loop.simps) simp

lemma ph_name_loop_miss:
  "fmt_name b n \<in> set names \<Longrightarrow> ph_name_loop b names n = ph_name_loop b names (n + 1)"
  by (subst ph_name_loop.simps) simp

lemma ph_name_loop_first_free:
  "fmt_name b (n + int d) \<notin> set names \<Longrightarrow> \<forall>e<d. fmt_name b (n + int e) \<in> set names
     \<Longrightarrow> ph_name_loop b names n = Some (fmt_name b (n + int d))"
proof (induction d arbitrary: n)
  case 0
  then show ?case by (simp add: ph_name_loop_hit)
next
  case (Suc d)
  from Suc.prems(2) have "fmt_name b (n + int 0) \<in> set names" by blast
  then have step: "ph_name_loop b names n = ph_name_loop b names (n + 1)"
    by (simp add: ph_name_loop_miss)
  have a: "fmt_name b (n + 1 + int d) \<notin> set names" using Suc.prems(1) by (simp add: add.assoc)
  have b: "\<forall>e<d. fmt_name b (n + 1 + int e) \<in> set names"
  proof (intro allI impI)
    fix e assume "e < d"
    then have "Suc e < Suc d" by simp
    with Suc.prems(2) have "fmt_name b (n + int (Suc e)) \<in> set names" by blast
    then show "fmt_name b (n + 1 + int e) \<in> set names" by (simp add: add.assoc)
  qed
  from Suc.IH[OF a b] step show ?case by (simp add: add.assoc)
qed

lemma free_suffix_exists: "\<exists>d. fmt_name b (n + int d) \<notin> set names"
proof (rule ccontr)
  assume "\<not> ?thesis"
  then have all: "\<And>d. fmt_name b (n + int d) \<in> set names" by blast
  have "inj (\<lambda>d. fmt_name b (n + int d))"
    by (rule injI) (auto dest: fmt_name_inj_num)
  moreover have "range (\<lambda>d. fmt_name b (n + int d)) \<subseteq> set names" using all by blast
  ultimately have "finite (UNIV :: nat set)"
    using finite_subset finite_imageD by (metis List.finite_set subset_UNIV top_greatest inj_on_subset)
  then show False by simp
qed

lemma first_free_suffix:
  "\<exists>d. fmt_name b (n + int d) \<notin> set names \<and> (\<forall>e<d. fmt_name b (n + int e) \<in> set names)"
proof -
  let ?P = "\<lambda>d. fmt_name b (n + int d) \<notin> set names"
  from free_suffix_exists obtain d0 where "?P d0" by blast
  then have "?P (LEAST d. ?P d)" by (rule LeastI)
  moreover have "\<forall>e<(LEAST d. ?P d). \<not> ?P e" using not_less_Least by blast
  ultimately show ?thesis by blast
qed

text \<open>
  C10. The collision loop of \<open>__next_ph_name\<close> returns for every basename, every list of
  names in the document and every starting number: the names are finitely many and the
  composed names for different numbers differ, so some number gives a name that is free.
\<close>

theorem ph_name_loop_terminates: "\<exists>name. ph_name_loop basename names numpart = Some name"
proof -
  from first_free_suffix[of basename numpart names] obtain d where
    "fmt_name basename (numpart + int d) \<notin> set names"
    "\<forall>e<d. fmt_name basename (numpart + int e) \<in> set names" by blast
  from ph_name_loop_first_free[OF this] show ?thesis by blast
qed

theorem ph_name_loop_terminates_witness:
  "(\<exists>name. ph_name_loop ''Title'' [''Title 1'', ''Title 3'', ''Title 2''] 1 = Some name)
   \<and> ph_name_loop ''Title'' [''Title 1'', ''Title 3'', ''Title 2''] 1 = Some ''Title 4''"
proof -
  have v: "ph_name_loop ''Title'' [''Title 1'', ''Title 3'', ''Title 2''] 1 = Some ''Title 4''"
    by code_simp
  from ph_name_loop_terminates[of "''Title''" "[''Title 1'', ''Title 3'', ''Title 2'']" 1] v
  show ?thesis by (intro conjI)
qed

lemma ph_name_loop_least:
  "\<exists>k. ph_name_loop b names n = Some (fmt_name b k) \<and> n \<le> k \<and> fmt_name b k \<notin> set names
       \<and> (\<forall>m. n \<le> m \<and> m < k \<longrightarrow> fmt_name b m \<in> set names)"
proof -
  from first_free_suffix[of b n names] obtain d where
    d: "fmt_name b (n + int d) \<notin> set names" "\<forall>e<d. fmt_name b (n + int e) \<in> set names"
    by blast
  have "fmt_name b m \<in> set names" if "n \<le> m" "m < n + int d" for m
  proof -
    from that have "nat (m - n) < d" "m = n + int (nat (m - n))" by auto
    with d(2) show ?thesis by metis
  qed
  with ph_name_loop_first_free[OF d] d(1) show ?thesis
    by (intro exI[of _ "n + int d"]) simp
qed

text \<open>
  C4. For a placeholder type of the table, \<open>__next_ph_name\<close> returns the type's basename,
  prefixed with \<open>Vertical\<close> and a space exactly when the orientation is \<open>vert\<close>, followed by a
  space and the smallest number \<open>n\<close> from \<open>id - 1\<close> on for which the composed name is not a
  name in the document.
\<close>

theorem next_ph_name_first_free:
  assumes "map_of (slide_ph_basenames env) ptype = Some basename"
  shows "\<exists>n. next_ph_name env c ptype i orient =
                Some (Inr (fmt_name ((if orient = PH_ORIENT_VERT then ''Vertical '' else []) @ basename) n))
            \<and> i - 1 \<le> n
            \<and> fmt_name ((if orient = PH_ORIENT_VERT then ''Vertical '' else []) @ basename) n
                \<notin> set (scan_names c)
            \<and> (\<forall>m. i - 1 \<le> m \<and> m < n \<longrightarrow>
                  fmt_name ((if orient = PH_ORIENT_VERT then ''Vertical '' else []) @ basename) m
                    \<in> set (scan_names c))"
proof -
  let ?b = "(if orient = PH_ORIENT_VERT then ''Vertical '' else []) @ basename"
  have "next_ph_name env c ptype i orient =
          map_option Inr (ph_name_loop ?b (scan_names c) (i - 1))"
    using assms by (simp add: next_ph_name_def scan_names_def)
  with ph_name_loop_least[of ?b "scan_names c" "i - 1"] show ?thesis by auto
qed

theorem next_ph_name_first_free_witness:
  "map_of (slide_ph_basenames ex_env) ''body'' = Some ''Text Placeholder''
   \<and> next_ph_name ex_env ex_gap ''body'' 5 ''vert'' = Some (Inr ''Vertical Text Placeholder 4'')
   \<and> next_ph_name ex_env ex_taken ''body'' 5 ''vert'' = Some (Inr ''Vertical Text Placeholder 6'')
   \<and> next_ph_name ex_env ex_taken ''body'' 5 ''horz'' = Some (Inr ''Text Placeholder 4'')"
proof -
  have t: "map_of (slide_ph_basenames ex_env) ''body'' = Some ''Text Placeholder''"
    by (simp add: ex_env_def)
  have v: "(if ''vert'' = PH_ORIENT_VERT then ''Vertical '' else []) @ ''Text Placeholder''
             = ''Vertical Text Placeholder''"
    and h: "(if ''horz'' = PH_ORIENT_VERT then ''Vertical '' else []) @ ''Text Placeholder''
             = ''Text Placeholder''"
    by (simp_all add: PH_ORIENT_VERT_def)
  have g: "scan_names ex_gap = [[], ''Group 1'', ''Rectangle 3'']" by code_simp
  have k: "scan_names ex_taken = [[], ''Vertical Text Placeholder 4'', ''Vertical Text Placeholder 5'']"
    by code_simp
  have f4: "fmt_name ''Vertical Text Placeholder'' 4 = ''Vertical Text Placeholder 4''"
    and f5: "fmt_name ''Vertical Text Placeholder'' 5 = ''Vertical Text Placeholder 5''"
    and f6: "fmt_name ''Vertical Text Placeholder'' 6 = ''Vertical Text Placeholder 6''"
    and h4: "fmt_name ''Text Placeholder'' 4 = ''Text Placeholder 4''"
    by (simp_all add: str_eval)
  from next_ph_name_first_free[OF t, of ex_gap 5 "''vert''"] obtain n where
    n: "next_ph_name ex_env ex_gap ''body'' 5 ''vert'' = Some (Inr (fmt_name ''Vertical Text Placeholder'' n))"
       "4 \<le> n"
       "\<forall>m. 4 \<le> m \<and> m < n \<longrightarrow> fmt_name ''Vertical Text Placeholder'' m \<in> set (scan_names ex_gap)"
    unfolding v by auto
  from spec[OF n(3), of 4] have "\<not> 4 < n" by (simp add: f4 g)
  with n(2) have "n = 4" by simp
  from next_ph_name_first_free[OF t, of ex_taken 5 "''vert''"] obtain j where
    j: "next_ph_name ex_env ex_taken ''body'' 5 ''vert'' = Some (Inr (fmt_name ''Vertical Text Placeholder'' j))"
       "4 \<le> j"
       "fmt_name ''Vertical Text Placeholder'' j \<notin> set (scan_names ex_taken)"
       "\<forall>m. 4 \<le> m \<and> m < j \<longrightarrow> fmt_name ''Vertical Text Placeholder'' m \<in> set (scan_names ex_taken)"
    unfolding v by auto
  from spec[OF j(4), of 6] have "\<not> 6 < j" by (simp add: f6 k)
  moreover from j(3) have "j \<noteq> 4" "j \<noteq> 5" by (auto simp: f4 f5 k)
  ultimately have "j = 6" using j(2) by simp
  from next_ph_name_first_free[OF t, of ex_taken 5 "''horz''"] obtain i where
    i: "next_ph_name ex_env ex_taken ''body'' 5 ''horz'' = Some (Inr (fmt_name ''Text Placeholder'' i))"
       "4 \<le> i"
       "\<forall>m. 4 \<le> m \<and> m < i \<longrightarrow> fmt_name ''Text Placeholder'' m \<in> set (scan_names ex_taken)"
    unfolding h by auto
  from spec[OF i(3), of 4] have "\<not> 4 < i" by (simp add: h4 k)
  with i(2) have "i = 4" by simp
  from t n(1) j(1) i(1) \<open>n = 4\<close> \<open>j = 6\<close> \<open>i = 4\<close> f4 f6 h4 show ?thesis by simp
qed

section \<open>Unmarshalling\<close>

lemmas tag_defs = NVGRPSPPR_def GRPSPPR_def SP_def GRPSP_def GRAPHICFRAME_def CXNSP_def PIC_def
  CONTENTPART_def EXTLST_def CNVPR_def

lemma tags_distinct:
  "distinct [NVGRPSPPR, GRPSPPR, EXTLST, SP, PIC, GRPSP, GRAPHICFRAME, CXNSP, CONTENTPART, CNVPR]"
  by (simp add: tag_defs)

lemma unmarshal_skip: "is_skipped (tag e) \<Longrightarrow> unmarshal ht (e # es) = unmarshal ht es"
  by (cases e) (simp add: is_skipped_def)

lemma unmarshal_contentPart:
  "tag e = CONTENTPART \<Longrightarrow> unmarshal ht (e # es) = Inl (ValueError contentPart_msg)"
  using tags_distinct by (cases e) auto

lemma unmarshal_grpSp:
  "tag e = GRPSP \<Longrightarrow> unmarshal ht (e # es) =
     (case unmarshal ht (kids e) of
        Inl err \<Rightarrow> Inl err
      | Inr sub \<Rightarrow>
          (case unmarshal ht es of
             Inl err \<Rightarrow> Inl err
           | Inr shs \<Rightarrow> Inr (ShapeCollection e sub # shs)))"
  using tags_distinct by (cases e) (auto split: sum.splits)

lemma unmarshal_leaf:
  "\<not> is_skipped (tag e) \<Longrightarrow> tag e \<noteq> GRPSP \<Longrightarrow> tag e \<noteq> CONTENTPART \<Longrightarrow>
     unmarshal ht (e # es) =
       (case unmarshal ht es of Inl err \<Rightarrow> Inl err | Inr shs \<Rightarrow> Inr (leaf_shape ht e # shs))"
  by (cases e) (auto simp: is_skipped_def leaf_shape_def split: sum.splits)

declare unmarshal.simps(2) [simp del]

lemma reaches_Cons:
  "reaches_contentPart (e # es) =
     (tag e = CONTENTPART \<or> (tag e = GRPSP \<and> reaches_contentPart (kids e)) \<or> reaches_contentPart es)"
  by (cases e) simp

declare reaches_contentPart.simps(2) [simp del]

lemma skipped_not: "is_skipped t \<Longrightarrow> t \<noteq> CONTENTPART \<and> t \<noteq> GRPSP \<and> t \<noteq> SP \<and> t \<noteq> PIC \<and> t \<noteq> GRAPHICFRAME \<and> t \<noteq> CXNSP"
  using tags_distinct by (auto simp: is_skipped_def)

lemma unmarshal_fails_iff:
  "(unmarshal ht es = Inl err) = (reaches_contentPart es \<and> err = ValueError contentPart_msg)"
proof (induction es arbitrary: err rule: reaches_contentPart.induct)
  case 1
  show ?case by simp
next
  case (2 t a ks es)
  let ?e = "Elm t a ks"
  note sub = 2(1) and rest = 2(2)
  consider (skip) "is_skipped t" | (cp) "t = CONTENTPART" | (grp) "t = GRPSP"
    | (leaf) "\<not> is_skipped t" "t \<noteq> GRPSP" "t \<noteq> CONTENTPART" by blast
  then show ?case
  proof cases
    case skip
    then have "unmarshal ht (?e # es) = unmarshal ht es" by (simp add: unmarshal_skip)
    with rest[of err] skipped_not[OF skip] show ?thesis by (simp add: reaches_Cons)
  next
    case cp
    then show ?thesis by (auto simp: unmarshal_contentPart reaches_Cons)
  next
    case grp
    with tags_distinct have ncp: "t \<noteq> CONTENTPART" by auto
    show ?thesis
    proof (cases "unmarshal ht ks")
      case (Inl e1)
      with sub[of e1] grp show ?thesis by (auto simp: unmarshal_grpSp reaches_Cons)
    next
      case (Inr shs)
      with sub[of "ValueError contentPart_msg"] have nk: "\<not> reaches_contentPart ks" by simp
      show ?thesis
      proof (cases "unmarshal ht es")
        case l: (Inl e2)
        with rest[of e2] Inr grp ncp nk show ?thesis
          by (auto simp: unmarshal_grpSp reaches_Cons)
      next
        case r: (Inr shs')
        with rest[of "ValueError contentPart_msg"] have "\<not> reaches_contentPart es" by simp
        with r Inr grp ncp nk show ?thesis by (simp add: unmarshal_grpSp reaches_Cons)
      qed
    qed
  next
    case leaf
    show ?thesis
    proof (cases "unmarshal ht es")
      case l: (Inl e2)
      with rest[of e2] leaf show ?thesis by (auto simp: unmarshal_leaf reaches_Cons)
    next
      case r: (Inr shs')
      with rest[of "ValueError contentPart_msg"] have "\<not> reaches_contentPart es" by simp
      with r leaf show ?thesis by (simp add: unmarshal_leaf reaches_Cons)
    qed
  qed
qed

lemma unmarshal_ok_iff: "(\<exists>shs. unmarshal ht es = Inr shs) = (\<not> reaches_contentPart es)"
proof (cases "unmarshal ht es")
  case (Inl e)
  with unmarshal_fails_iff[of ht es e] show ?thesis by simp
next
  case (Inr shs)
  with unmarshal_fails_iff[of ht es "ValueError contentPart_msg"] show ?thesis by simp
qed

lemma leaf_variant:
  "\<not> is_skipped (tag e) \<Longrightarrow> tag e \<noteq> GRPSP \<Longrightarrow> tag e \<noteq> CONTENTPART \<Longrightarrow>
     spec_variant ht e (leaf_shape ht e)"
  using tags_distinct by (auto simp: spec_variant_def leaf_shape_def is_skipped_def)

lemma qualifying_Cons:
  "qualifying (e # es) = (if is_skipped (tag e) then qualifying es else e # qualifying es)"
  by (simp add: qualifying_def is_skipped_def)

lemma unmarshal_variants:
  "unmarshal ht es = Inr shs \<Longrightarrow> list_all2 (spec_variant ht) (qualifying es) shs"
proof (induction es arbitrary: shs rule: reaches_contentPart.induct)
  case 1
  then show ?case by (simp add: qualifying_def)
next
  case (2 t a ks es)
  let ?e = "Elm t a ks"
  note rest = 2(2)
  consider (skip) "is_skipped t" | (cp) "t = CONTENTPART" | (grp) "t = GRPSP"
    | (leaf) "\<not> is_skipped t" "t \<noteq> GRPSP" "t \<noteq> CONTENTPART" by blast
  then show ?case
  proof cases
    case skip
    with 2(3) have "unmarshal ht es = Inr shs" by (simp add: unmarshal_skip)
    from rest[OF this] skip show ?thesis by (simp add: qualifying_Cons)
  next
    case cp
    with 2(3) show ?thesis by (simp add: unmarshal_contentPart)
  next
    case grp
    with 2(3) obtain sub shs' where
      s: "unmarshal ht ks = Inr sub" "unmarshal ht es = Inr shs'" "shs = ShapeCollection ?e sub # shs'"
      by (auto simp: unmarshal_grpSp split: sum.splits)
    from grp s(1) have "spec_variant ht ?e (ShapeCollection ?e sub)"
      by (simp add: spec_variant_def)
    moreover from grp skipped_not[of t] have "\<not> is_skipped t" by blast
    ultimately show ?thesis using rest[OF s(2)] s(3) by (simp add: qualifying_Cons)
  next
    case leaf
    with 2(3) obtain shs' where
      s: "unmarshal ht es = Inr shs'" "shs = leaf_shape ht ?e # shs'"
      by (auto simp: unmarshal_leaf split: sum.splits)
    from leaf have "spec_variant ht ?e (leaf_shape ht ?e)" by (simp add: leaf_variant)
    with rest[OF s(1)] s(2) leaf show ?thesis by (simp add: qualifying_Cons)
  qed
qed

text \<open>
  C6. When no content part is reached, unmarshalling returns one shape for every child
  other than the three structural ones, in document order, each wrapped as the dispatch
  table says: \<open>p:sp\<close> as a \<open>_Shape\<close>, \<open>p:pic\<close> as a \<open>_Picture\<close>, \<open>p:grpSp\<close> as a nested collection
  of its own unmarshalled children, \<open>p:graphicFrame\<close> as a \<open>_Table\<close> exactly when it has a
  table and as a \<open>_BaseShape\<close> otherwise, \<open>p:cxnSp\<close> and every other tag as a \<open>_BaseShape\<close>.
\<close>

theorem unmarshal_dispatch:
  assumes "\<not> reaches_contentPart es"
  shows "\<exists>shs. unmarshal ht es = Inr shs \<and> list_all2 (spec_variant ht) (qualifying es) shs"
proof -
  from assms unmarshal_ok_iff[of ht es] obtain shs where "unmarshal ht es = Inr shs" by blast
  with unmarshal_variants[OF this] show ?thesis by blast
qed

theorem unmarshal_dispatch_witness:
  "\<not> reaches_contentPart ex_kinds
   \<and> unmarshal (has_table ex_env) ex_kinds =
       Inr [Shape (ex_sp ''2'' ''Title 1''), Picture ex_pic,
            ShapeCollection (ex_grpSp ''4'' ''Group 3'' [ex_sp ''8'' ''Oval 7''])
              [Shape (ex_sp ''8'' ''Oval 7'')],
            Table ex_table_frame, BaseShape ex_chart_frame, BaseShape ex_cxnSp,
            BaseShape ex_unknown]
   \<and> list_all2 (spec_variant (has_table ex_env)) (qualifying ex_kinds)
       [Shape (ex_sp ''2'' ''Title 1''), Picture ex_pic,
        ShapeCollection (ex_grpSp ''4'' ''Group 3'' [ex_sp ''8'' ''Oval 7''])
          [Shape (ex_sp ''8'' ''Oval 7'')],
        Table ex_table_frame, BaseShape ex_chart_frame, BaseShape ex_cxnSp,
        BaseShape ex_unknown]"
proof -
  have h: "\<not> reaches_contentPart ex_kinds" by code_simp
  have v: "unmarshal (has_table ex_env) ex_kinds =
       Inr [Shape (ex_sp ''2'' ''Title 1''), Picture ex_pic,
            ShapeCollection (ex_grpSp ''4'' ''Group 3'' [ex_sp ''8'' ''Oval 7''])
              [Shape (ex_sp ''8'' ''Oval 7'')],
            Table ex_table_frame, BaseShape ex_chart_frame, BaseShape ex_cxnSp,
            BaseShape ex_unknown]"
    by code_simp
  from unmarshal_dispatch[OF h, of "has_table ex_env"] obtain shs where
    s: "unmarshal (has_table ex_env) ex_kinds = Inr shs"
       "list_all2 (spec_variant (has_table ex_env)) (qualifying ex_kinds) shs"
    by blast
  from s(1) v have "shs = [Shape (ex_sp ''2'' ''Title 1''), Picture ex_pic,
            ShapeCollection (ex_grpSp ''4'' ''Group 3'' [ex_sp ''8'' ''Oval 7''])
              [Shape (ex_sp ''8'' ''Oval 7'')],
            Table ex_table_frame, BaseShape ex_chart_frame, BaseShape ex_cxnSp,
            BaseShape ex_unknown]"
    by simp
  with h v s(2) show ?thesis by simp
qed

text \<open>
  C7, as the claim states it, fails: a content part inside a group makes the constructor
  raise although no child of the node itself is a content part.
\<close>

theorem contentPart_in_group_counterexample:
  "init ex_env ex_parents ex_nested_contentPart None = Inl (ValueError contentPart_msg)
   \<and> CONTENTPART \<notin> set (map tag (kids ex_nested_contentPart))"
proof -
  have "unmarshal (has_table ex_env) (kids ex_nested_contentPart) = Inl (ValueError contentPart_msg)"
    by code_simp
  then have "init ex_env ex_parents ex_nested_contentPart None = Inl (ValueError contentPart_msg)"
    by (simp add: init_def)
  moreover have "CONTENTPART \<notin> set (map tag (kids ex_nested_contentPart))"
    by code_simp
  ultimately show ?thesis by simp
qed

text \<open>
  C7, amended. The constructor raises exactly when a content part is among the children
  of the node or, through nested \<open>p:grpSp\<close> children, among theirs; the exception is then the
  \<open>ValueError\<close> of the loop and no collection is returned; in every other case a
  collection is returned.
\<close>

theorem init_fails_iff_contentPart_reached:
  "((init env fs e sl = Inl err) =
      (reaches_contentPart (kids e) \<and> err = ValueError contentPart_msg))
   \<and> ((\<exists>c. init env fs e sl = Inr c) = (\<not> reaches_contentPart (kids e)))"
proof -
  have a: "(init env fs e sl = Inl err) = (unmarshal (has_table env) (kids e) = Inl err)"
    by (simp add: init_def split: sum.splits)
  have b: "(\<exists>c. init env fs e sl = Inr c) = (\<exists>shs. unmarshal (has_table env) (kids e) = Inr shs)"
    by (simp add: init_def split: sum.splits)
  from a b show ?thesis by (simp only: unmarshal_fails_iff unmarshal_ok_iff simp_thms)
qed

theorem init_fails_iff_contentPart_reached_witness:
  "reaches_contentPart (kids ex_nested_contentPart)
   \<and> init ex_env ex_parents ex_nested_contentPart None = Inl (ValueError contentPart_msg)
   \<and> \<not> (\<exists>c. init ex_env ex_parents ex_nested_contentPart None = Inr c)
   \<and> \<not> reaches_contentPart (kids (spTree ex_top))
   \<and> (\<exists>c. init ex_env ex_parents (spTree ex_top) (Some ex_slide) = Inr c)"
proof -
  have r: "reaches_contentPart (kids ex_nested_contentPart)" by code_simp
  have n: "\<not> reaches_contentPart (kids (spTree ex_top))" by code_simp
  note a = init_fails_iff_contentPart_reached[of ex_env ex_parents ex_nested_contentPart None
      "ValueError contentPart_msg"]
  note b = init_fails_iff_contentPart_reached[of ex_env ex_parents "spTree ex_top" "Some ex_slide"
      "ValueError contentPart_msg"]
  from a r have a1: "init ex_env ex_parents ex_nested_contentPart None = Inl (ValueError contentPart_msg)"
    and a2: "\<not> (\<exists>c. init ex_env ex_parents ex_nested_contentPart None = Inr c)"
    by simp_all
  from b n have b1: "\<exists>c. init ex_env ex_parents (spTree ex_top) (Some ex_slide) = Inr c"
    by simp
  show ?thesis by (intro conjI) (rule r a1 a2 n b1)+
qed

section \<open>The placeholders of a collection\<close>

text \<open>
  C8. \<open>placeholders\<close> holds exactly the shapes of the collection that are placeholders,
  each once, in ascending order of \<open>idx\<close>; placeholders of equal \<open>idx\<close> keep the order they
  have in the collection.
\<close>

theorem placeholders_sorted_stable:
  "mset (placeholders env c) = mset (map Placeholder (filter (is_placeholder env) (shapes c)))
   \<and> sorted (map (ph_idx env) (placeholders env c))
   \<and> (\<forall>k. filter (\<lambda>ph. ph_idx env ph = k) (placeholders env c) =
            map Placeholder
              (filter (\<lambda>sh. is_placeholder env sh \<and> ph_idx env (Placeholder sh) = k) (shapes c)))"
proof -
  have "filter (\<lambda>ph. ph_idx env ph = k) (placeholders env c) =
          map Placeholder
            (filter (\<lambda>sh. is_placeholder env sh \<and> ph_idx env (Placeholder sh) = k) (shapes c))" for k
    by (simp add: placeholders_def sort_key_stable filter_map comp_def conj_commute)
  then show ?thesis by (simp add: placeholders_def)
qed

theorem placeholders_sorted_stable_witness:
  "map (ph_idx ex_env) (placeholders ex_env ex_unsorted) = [1, 2, 3]
   \<and> sorted (map (ph_idx ex_env) (placeholders ex_env ex_unsorted))
   \<and> mset (placeholders ex_env ex_unsorted) =
       mset (map Placeholder (filter (is_placeholder ex_env) (shapes ex_unsorted)))
   \<and> placeholders ex_env ex_unsorted =
       [Placeholder (Shape (ex_ph_sp ''4'' ''Title 3'' ''title'' ''horz'' ''1'')),
        Placeholder (Shape (ex_ph_sp ''5'' ''Picture Placeholder 4'' ''pic'' ''horz'' ''2'')),
        Placeholder (Shape (ex_ph_sp ''2'' ''Text Placeholder 1'' ''body'' ''horz'' ''3''))]"
proof -
  have v: "map (ph_idx ex_env) (placeholders ex_env ex_unsorted) = [1, 2, 3]"
    and w: "placeholders ex_env ex_unsorted =
       [Placeholder (Shape (ex_ph_sp ''4'' ''Title 3'' ''title'' ''horz'' ''1'')),
        Placeholder (Shape (ex_ph_sp ''5'' ''Picture Placeholder 4'' ''pic'' ''horz'' ''2'')),
        Placeholder (Shape (ex_ph_sp ''2'' ''Text Placeholder 1'' ''body'' ''horz'' ''3''))]"
    by code_simp+
  from placeholders_sorted_stable[of ex_env ex_unsorted]
  have s: "sorted (map (ph_idx ex_env) (placeholders ex_env ex_unsorted))"
    and m: "mset (placeholders ex_env ex_unsorted) =
       mset (map Placeholder (filter (is_placeholder ex_env) (shapes ex_unsorted)))"
    by blast+
  show ?thesis by (intro conjI) (rule v s m w)+
qed

section \<open>What an appended node changes in the document scans\<close>

lemma iter_head: "iter e = e # concat (map iter (kids e))"
  by (cases e) simp

lemma node_info_iter_append:
  "map node_info (iter (elm_append e n)) = map node_info (iter e) @ map node_info (iter n)"
  by (cases e) (simp add: elm_append_def node_info_def)

lemma node_info_plug:
  "\<exists>pre post. \<forall>e. map node_info (iter (plug fs e)) = pre @ map node_info (iter e) @ post"
proof (induction fs)
  case Nil
  have "\<forall>e. map node_info (iter (plug [] e)) = [] @ map node_info (iter e) @ []" by simp
  then show ?case by blast
next
  case (Cons f fs)
  obtain t a l r where f: "f = Frame t a l r" by (cases f)
  from Cons obtain pre post where
    ih: "\<And>e. map node_info (iter (plug fs e)) = pre @ map node_info (iter e) @ post" by blast
  have "\<forall>e. map node_info (iter (plug (f # fs) e)) =
          (pre @ (t, a) # concat (map (map node_info \<circ> iter) l)) @ map node_info (iter e)
            @ (concat (map (map node_info \<circ> iter) r) @ post)"
    by (simp add: f ih node_info_def map_concat)
  then show ?case by blast
qed

lemma node_info_plug_append:
  "mset (map node_info (iter (plug fs (elm_append e n)))) =
     mset (map node_info (iter (plug fs e))) + mset (map node_info (iter n))"
proof -
  from node_info_plug[of fs] obtain pre post where
    p: "\<And>e. map node_info (iter (plug fs e)) = pre @ map node_info (iter e) @ post" by blast
  show ?thesis by (simp add: p node_info_iter_append)
qed

lemma attribs_via_info:
  "map attrib (filter (\<lambda>x. tag x = CNVPR) xs) =
     map snd (filter (\<lambda>p. fst p = CNVPR) (map node_info xs))"
  by (induction xs) (simp_all add: node_info_def)

lemma doc_attribs_appended:
  "mset (doc_attribs (appended c n sh)) =
     mset (doc_attribs c) + mset (map attrib (filter (\<lambda>x. tag x = CNVPR) (iter n)))"
proof -
  have "mset (map snd (filter (\<lambda>p. fst p = CNVPR) (map node_info (iter (plug (parents c) (elm_append (spTree c) n)))))) =
        mset (map snd (filter (\<lambda>p. fst p = CNVPR) (map node_info (iter (plug (parents c) (spTree c))))))
        + mset (map snd (filter (\<lambda>p. fst p = CNVPR) (map node_info (iter n))))"
    using node_info_plug_append[of "parents c" "spTree c" n]
    by (simp only: mset_map mset_filter) simp
  then show ?thesis
    by (simp add: doc_attribs_def appended_def shapes_append_def spTree_append_def xpath_cNvPr_def
        attribs_via_info)
qed

lemma carries_attribs:
  "carries n i name \<Longrightarrow>
     \<exists>a. map attrib (filter (\<lambda>x. tag x = CNVPR) (iter n)) = [a]
          \<and> id_of_attrib a = Inr i \<and> map_of a ''name'' = Some name"
  by (auto simp: carries_def id_of_attrib_def cNvPr_id_def elm_get_def split: list.splits)

lemma doc_attribs_step:
  "carries n i name \<Longrightarrow>
     \<exists>a. mset (doc_attribs (appended c n sh)) = add_mset a (mset (doc_attribs c))
          \<and> id_of_attrib a = Inr i \<and> map_of a ''name'' = Some name"
proof -
  assume "carries n i name"
  from carries_attribs[OF this] obtain a where
    a: "map attrib (filter (\<lambda>x. tag x = CNVPR) (iter n)) = [a]"
       "id_of_attrib a = Inr i" "map_of a ''name'' = Some name" by (elim exE conjE)
  have "mset (doc_attribs (appended c n sh)) = add_mset a (mset (doc_attribs c))"
    by (simp only: doc_attribs_appended a(1)) simp
  with a(2,3) show ?thesis by blast
qed

lemma cNvPr_id_attrib: "cNvPr_id x = id_of_attrib (attrib x)"
  by (simp add: cNvPr_id_def id_of_attrib_def elm_get_def)

lemma cNvPr_ids_Inr_iff:
  "(cNvPr_ids xs = Inr ids) =
     ((\<forall>x\<in>set xs. \<exists>i. cNvPr_id x = Inr i) \<and> ids = map (\<lambda>x. projr (cNvPr_id x)) xs)"
proof (induction xs arbitrary: ids)
  case Nil
  show ?case by auto
next
  case (Cons x xs)
  show ?case
  proof (cases "cNvPr_id x")
    case (Inl e)
    then show ?thesis by auto
  next
    case (Inr i)
    show ?thesis
    proof (cases "cNvPr_ids xs")
      case l: (Inl e)
      with Cons[of "map (\<lambda>x. projr (cNvPr_id x)) xs"] Inr show ?thesis by auto
    next
      case r: (Inr js)
      with Cons[of js] Inr show ?thesis by auto
    qed
  qed
qed

lemma scan_ids_Inr_iff:
  "(scan_ids c = Inr ids) =
     ((\<forall>a\<in>set (doc_attribs c). \<exists>i. id_of_attrib a = Inr i)
      \<and> ids = map (\<lambda>a. projr (id_of_attrib a)) (doc_attribs c))"
  by (simp add: scan_ids_def cNvPr_ids_Inr_iff doc_attribs_def cNvPr_id_attrib comp_def)

lemma scan_names_attribs:
  "scan_names c = List.map_filter (\<lambda>a. map_of a ''name'') (doc_attribs c)"
  by (simp add: scan_names_def xpath_cNvPr_name_def doc_attribs_def map_filter_def elm_get_def comp_def filter_map)

lemma mset_map_filter:
  "mset (List.map_filter f xs) = image_mset (\<lambda>x. the (f x)) (filter_mset (\<lambda>x. f x \<noteq> None) (mset xs))"
  by (simp add: map_filter_def comp_def)

lemma scan_ids_step:
  assumes "scan_ids c = Inr ids" and "carries n i name"
  shows "\<exists>ids'. scan_ids (appended c n sh) = Inr ids' \<and> mset ids' = add_mset i (mset ids)"
proof -
  from doc_attribs_step[OF assms(2), of c sh] obtain a where
    a: "mset (doc_attribs (appended c n sh)) = add_mset a (mset (doc_attribs c))"
       "id_of_attrib a = Inr i" by blast
  from assms(1) have ok: "\<forall>a\<in>set (doc_attribs c). \<exists>i. id_of_attrib a = Inr i"
    and ids: "ids = map (\<lambda>a. projr (id_of_attrib a)) (doc_attribs c)"
    by (simp_all add: scan_ids_Inr_iff)
  let ?ids' = "map (\<lambda>a. projr (id_of_attrib a)) (doc_attribs (appended c n sh))"
  from a(1) have "set (doc_attribs (appended c n sh)) = insert a (set (doc_attribs c))"
    by (metis set_mset_add_mset_insert set_mset_mset)
  with ok a(2) have "\<forall>a\<in>set (doc_attribs (appended c n sh)). \<exists>i. id_of_attrib a = Inr i"
    by auto
  then have s: "scan_ids (appended c n sh) = Inr ?ids'" by (simp add: scan_ids_Inr_iff)
  have "mset ?ids' = image_mset (\<lambda>a. projr (id_of_attrib a)) (mset (doc_attribs (appended c n sh)))"
    by simp
  also have "\<dots> = add_mset i (mset ids)" by (simp only: a(1)) (simp add: a(2) ids)
  finally show ?thesis using s by blast
qed

lemma scan_names_step:
  assumes "carries n i name"
  shows "mset (scan_names (appended c n sh)) = add_mset name (mset (scan_names c))"
proof -
  from doc_attribs_step[OF assms, of c sh] obtain a where
    a: "mset (doc_attribs (appended c n sh)) = add_mset a (mset (doc_attribs c))"
       "map_of a ''name'' = Some name" by blast
  show ?thesis
    by (simp only: scan_names_attribs mset_map_filter a(1)) (simp add: a(2))
qed

lemma ids_distinct_step:
  assumes "ids_distinct c" and "next_shape_id c = Inr i" and "carries n i name"
  shows "ids_distinct (appended c n sh)"
proof -
  from next_shape_id_fresh[OF assms(2)] obtain ids where
    ids: "scan_ids c = Inr ids" "i \<notin> set ids" by blast
  from assms(1) ids(1) have d: "distinct ids" by (simp add: ids_distinct_def)
  from scan_ids_step[OF ids(1) assms(3), of sh] obtain ids' where
    s: "scan_ids (appended c n sh) = Inr ids'" "mset ids' = add_mset i (mset ids)" by blast
  from s(2) have "mset ids' = mset (i # ids)" by simp
  then have "distinct ids' = distinct (i # ids)" by (rule mset_eq_imp_distinct_iff)
  with d ids(2) s(1) show ?thesis by (simp add: ids_distinct_def)
qed

lemma ids_distinct_op_step: "ids_distinct c \<Longrightarrow> op_step c c' \<Longrightarrow> ids_distinct c'"
  by (auto simp: op_step_def add_step_def clone_step_def intro: ids_distinct_step)

section \<open>Every operation is a sequence of appended nodes\<close>

lemma builders_ok_pic:
  "builders_ok env \<Longrightarrow> new_pic env i name d r x y cx cy = Inr e \<Longrightarrow> tag e = PIC \<and> carries e i name"
  unfolding builders_ok_def by meson

lemma builders_ok_autoshape:
  "builders_ok env \<Longrightarrow> new_autoshape_sp env i name prst x y cx cy = Inr e \<Longrightarrow> tag e = SP \<and> carries e i name"
  unfolding builders_ok_def by meson

lemma builders_ok_textbox:
  "builders_ok env \<Longrightarrow> new_textbox_sp env i name x y cx cy = Inr e \<Longrightarrow> tag e = SP \<and> carries e i name"
  unfolding builders_ok_def by meson

lemma builders_ok_table:
  "builders_ok env \<Longrightarrow> new_table env i name rows cols x y cx cy = Inr e \<Longrightarrow>
     tag e = GRAPHICFRAME \<and> carries e i name"
  unfolding builders_ok_def by meson

lemma builders_ok_placeholder:
  "builders_ok env \<Longrightarrow> new_placeholder_sp env i name ptype orient sz idx = Inr e \<Longrightarrow>
     tag e = SP \<and> carries e i name"
  unfolding builders_ok_def by meson

lemma not_skipped_tags: "\<not> is_skipped PIC" "\<not> is_skipped SP" "\<not> is_skipped GRAPHICFRAME"
  using skipped_not by blast+

lemma appended_eq: "shapes_append (spTree_append c n) sh = appended c n sh"
  by (simp add: appended_def)

lemma add_stepI:
  "next_shape_id c = Inr i \<Longrightarrow> tag n = t \<and> carries n i (fmt_name b (i - 1)) \<Longrightarrow> \<not> is_skipped t
     \<Longrightarrow> element sh = n \<Longrightarrow> add_step c (appended c n sh)"
  unfolding add_step_def by blast

lemma add_picture_step:
  assumes "builders_ok env"
  shows "snd (add_picture env c file left top' width height) = c
         \<or> add_step c (snd (add_picture env c file left top' width height))"
proof (cases "slide c")
  case None
  then show ?thesis by (simp add: add_picture_def)
next
  case (Some sl)
  show ?thesis
  proof (cases "add_image sl file")
    case (Inl err)
    with Some show ?thesis by (simp add: add_picture_def)
  next
    case (Inr p)
    obtain img rId where p: "p = (img, rId)" by (cases p)
    show ?thesis
    proof (cases "next_shape_id c")
      case l: (Inl err)
      with Some Inr p show ?thesis by (simp add: add_picture_def)
    next
      case i: (Inr i)
      obtain w h where wh: "scale img width height = (w, h)" by (cases "scale img width height")
      show ?thesis
      proof (cases "new_pic env i (fmt_name ''Picture'' (i - 1)) (desc img) rId left top' w h")
        case l: (Inl err)
        with Some Inr p i wh show ?thesis by (simp add: add_picture_def)
      next
        case r: (Inr pic)
        from builders_ok_pic[OF assms r]
        have "tag pic = PIC \<and> carries pic i (fmt_name ''Picture'' (i - 1))" .
        from add_stepI[OF i this not_skipped_tags(1), of "Picture pic"]
        have "add_step c (appended c pic (Picture pic))" by simp
        with Some Inr p i wh r show ?thesis by (simp add: add_picture_def appended_eq Let_def)
      qed
    qed
  qed
qed

lemma add_shape_step:
  assumes "builders_ok env"
  shows "snd (add_shape env c autoshape_type_id left top' width height) = c
         \<or> add_step c (snd (add_shape env c autoshape_type_id left top' width height))"
proof (cases "AutoShapeType env autoshape_type_id")
  case (Inl err)
  then show ?thesis by (simp add: add_shape_def)
next
  case (Inr p)
  obtain basename prst where p: "p = (basename, prst)" by (cases p)
  show ?thesis
  proof (cases "next_shape_id c")
    case l: (Inl err)
    with Inr p show ?thesis by (simp add: add_shape_def)
  next
    case i: (Inr i)
    show ?thesis
    proof (cases "new_autoshape_sp env i (fmt_name basename (i - 1)) prst left top' width height")
      case l: (Inl err)
      with Inr p i show ?thesis by (simp add: add_shape_def)
    next
      case r: (Inr sp)
      from builders_ok_autoshape[OF assms r]
      have "tag sp = SP \<and> carries sp i (fmt_name basename (i - 1))" .
      from add_stepI[OF i this not_skipped_tags(2), of "Shape sp"]
      have "add_step c (appended c sp (Shape sp))" by simp
      with Inr p i r show ?thesis by (simp add: add_shape_def appended_eq Let_def)
    qed
  qed
qed

lemma add_table_step:
  assumes "builders_ok env"
  shows "snd (add_table env c rows cols left top' width height) = c
         \<or> add_step c (snd (add_table env c rows cols left top' width height))"
proof (cases "next_shape_id c")
  case (Inl err)
  then show ?thesis by (simp add: add_table_def)
next
  case i: (Inr i)
  show ?thesis
  proof (cases "new_table env i (fmt_name ''Table'' (i - 1)) rows cols left top' width height")
    case (Inl err)
    with i show ?thesis by (simp add: add_table_def)
  next
    case r: (Inr gf)
    from builders_ok_table[OF assms r]
    have "tag gf = GRAPHICFRAME \<and> carries gf i (fmt_name ''Table'' (i - 1))" .
    from add_stepI[OF i this not_skipped_tags(3), of "Table gf"]
    have "add_step c (appended c gf (Table gf))" by simp
    with i r show ?thesis by (simp add: add_table_def appended_eq Let_def)
  qed
qed

lemma add_textbox_step:
  assumes "builders_ok env"
  shows "snd (add_textbox env c left top' width height) = c
         \<or> add_step c (snd (add_textbox env c left top' width height))"
proof (cases "next_shape_id c")
  case (Inl err)
  then show ?thesis by (simp add: add_textbox_def)
next
  case i: (Inr i)
  show ?thesis
  proof (cases "new_textbox_sp env i (fmt_name ''TextBox'' (i - 1)) left top' width height")
    case (Inl err)
    with i show ?thesis by (simp add: add_textbox_def)
  next
    case r: (Inr sp)
    from builders_ok_textbox[OF assms r]
    have "tag sp = SP \<and> carries sp i (fmt_name ''TextBox'' (i - 1))" .
    from add_stepI[OF i this not_skipped_tags(2), of "Shape sp"]
    have "add_step c (appended c sp (Shape sp))" by simp
    with i r show ?thesis by (simp add: add_textbox_def appended_eq Let_def)
  qed
qed

lemma next_ph_name_cases:
  "(\<exists>err. next_ph_name env c ptype i orient = Some (Inl err))
   \<or> (\<exists>b k. next_ph_name env c ptype i orient = Some (Inr (fmt_name b k)) \<and> i - 1 \<le> k
         \<and> fmt_name b k \<notin> set (scan_names c)
         \<and> (\<forall>m. i - 1 \<le> m \<and> m < k \<longrightarrow> fmt_name b m \<in> set (scan_names c)))"
proof (cases "map_of (slide_ph_basenames env) ptype")
  case None
  then show ?thesis by (simp add: next_ph_name_def)
next
  case (Some b0)
  define b where "b = (if orient = PH_ORIENT_VERT then ''Vertical '' @ b0 else b0)"
  have n: "next_ph_name env c ptype i orient = map_option Inr (ph_name_loop b (scan_names c) (i - 1))"
    using Some by (simp add: next_ph_name_def scan_names_def b_def)
  from ph_name_loop_least[of b "scan_names c" "i - 1"] obtain k where
    k: "ph_name_loop b (scan_names c) (i - 1) = Some (fmt_name b k)" "i - 1 \<le> k"
       "fmt_name b k \<notin> set (scan_names c)"
       "\<forall>m. i - 1 \<le> m \<and> m < k \<longrightarrow> fmt_name b m \<in> set (scan_names c)"
    by blast
  from n k(1) have "next_ph_name env c ptype i orient = Some (Inr (fmt_name b k))" by simp
  with k(2,3,4) show ?thesis by blast
qed

lemma clone_layout_placeholder_step:
  assumes "builders_ok env"
  shows "\<exists>r c'. clone_layout_placeholder env c ph = Some (r, c') \<and> (c' = c \<or> clone_step c c')"
proof (cases "next_shape_id c")
  case (Inl err)
  then show ?thesis by (simp add: clone_layout_placeholder_def)
next
  case i: (Inr i)
  from next_ph_name_cases[of env c "ph_type env ph" i "ph_orient env ph"]
  show ?thesis
  proof
    assume "\<exists>err. next_ph_name env c (ph_type env ph) i (ph_orient env ph) = Some (Inl err)"
    with i show ?thesis by (auto simp: clone_layout_placeholder_def)
  next
    assume "\<exists>b k. next_ph_name env c (ph_type env ph) i (ph_orient env ph) = Some (Inr (fmt_name b k))
         \<and> i - 1 \<le> k \<and> fmt_name b k \<notin> set (scan_names c)
         \<and> (\<forall>m. i - 1 \<le> m \<and> m < k \<longrightarrow> fmt_name b m \<in> set (scan_names c))"
    then obtain b k where
      nm: "next_ph_name env c (ph_type env ph) i (ph_orient env ph) = Some (Inr (fmt_name b k))"
      and k: "i - 1 \<le> k" "fmt_name b k \<notin> set (scan_names c)"
             "\<forall>m. i - 1 \<le> m \<and> m < k \<longrightarrow> fmt_name b m \<in> set (scan_names c)"
      by blast
    show ?thesis
    proof (cases "new_placeholder_sp env i (fmt_name b k) (ph_type env ph) (ph_orient env ph)
                    (ph_sz env ph) (ph_idx env ph)")
      case (Inl err)
      with i nm show ?thesis by (simp add: clone_layout_placeholder_def)
    next
      case r: (Inr sp)
      from builders_ok_placeholder[OF assms r]
      have "tag sp = SP \<and> carries sp i (fmt_name b k)" .
      with i k not_skipped_tags(2) have "clone_step c (appended c sp (Shape sp))"
        unfolding clone_step_def by (intro exI[of _ i] exI[of _ b] exI[of _ k] exI[of _ sp] exI[of _ "Shape sp"]) simp
      with i nm r show ?thesis by (simp add: clone_layout_placeholder_def appended_eq Let_def)
    qed
  qed
qed

lemma clone_layout_placeholders_steps:
  assumes "builders_ok env"
  shows "\<exists>r c'. clone_layout_placeholders env c layout = Some (r, c') \<and> op_step\<^sup>*\<^sup>* c c'"
proof (induction layout arbitrary: c)
  case Nil
  show ?case by simp
next
  case (Cons sp sps)
  show ?case
  proof (cases "\<not> is_placeholder env sp \<or> ph_type env (Placeholder sp) \<in> set latent_ph_types")
    case True
    with Cons[of c] show ?thesis by auto
  next
    case False
    from clone_layout_placeholder_step[OF assms, of c "Placeholder sp"] obtain r c1 where
      s: "clone_layout_placeholder env c (Placeholder sp) = Some (r, c1)" "c1 = c \<or> clone_step c c1"
      by blast
    from s(2) have st: "op_step\<^sup>*\<^sup>* c c1" by (auto simp: op_step_def)
    show ?thesis
    proof (cases r)
      case (Inl err)
      with False s(1) st show ?thesis by simp
    next
      case (Inr shape)
      from Cons[of c1] obtain r' c' where
        "clone_layout_placeholders env c1 sps = Some (r', c')" "op_step\<^sup>*\<^sup>* c1 c'" by blast
      with False s(1) st Inr show ?thesis by auto
    qed
  qed
qed

lemma apply_op_steps:
  assumes "builders_ok env"
  shows "\<exists>c'. apply_op env c x = Some c' \<and> op_step\<^sup>*\<^sup>* c c'"
proof (cases x)
  case (AddPicture f left top' width height)
  with add_picture_step[OF assms, of c f left top' width height] show ?thesis
    by (auto simp: op_step_def)
next
  case (AddShape t left top' width height)
  with add_shape_step[OF assms, of c t left top' width height] show ?thesis
    by (auto simp: op_step_def)
next
  case (AddTable rows cols left top' width height)
  with add_table_step[OF assms, of c rows cols left top' width height] show ?thesis
    by (auto simp: op_step_def)
next
  case (AddTextbox left top' width height)
  with add_textbox_step[OF assms, of c left top' width height] show ?thesis
    by (auto simp: op_step_def)
next
  case (CloneLayoutPlaceholders layout)
  with clone_layout_placeholders_steps[OF assms, of c layout] show ?thesis by auto
qed

lemma apply_ops_steps:
  assumes "builders_ok env"
  shows "\<exists>c'. apply_ops env c xs = Some c' \<and> op_step\<^sup>*\<^sup>* c c'"
proof (induction xs arbitrary: c)
  case Nil
  show ?case by simp
next
  case (Cons x xs)
  from apply_op_steps[OF assms, of c x] obtain c1 where
    a: "apply_op env c x = Some c1" "op_step\<^sup>*\<^sup>* c c1" by blast
  from Cons[of c1] obtain c' where "apply_ops env c1 xs = Some c'" "op_step\<^sup>*\<^sup>* c1 c'" by blast
  with a show ?case by auto
qed

lemma ex_cNvPr_id: "cNvPr_id (Elm t [(''id'', str_of_int i), (''name'', name)] ks) = Inr i"
  by (simp add: cNvPr_id_def elm_get_def py_int_str_of_int)

lemma filter_concat_replicate:
  "filter P xs = [] \<Longrightarrow> filter P (concat (replicate n xs)) = []"
  by (induction n) simp_all

lemma builders_ok_ex_env: "builders_ok ex_env"
  unfolding builders_ok_def
  by (auto simp: ex_env_def carries_def ex_nv_def ex_xfrm_def ex_cNvPr_id elm_get_def tag_defs
      filter_concat_replicate split: if_splits)

text \<open>
  C1. When the builders give nodes that carry the id and the name they are given, and the
  ids in the document are distinct integers, then every sequence of \<open>add_picture\<close>,
  \<open>add_shape\<close>, \<open>add_table\<close>, \<open>add_textbox\<close> and \<open>_clone_layout_placeholders\<close> operations
  returns, and after each of them (after the first \<open>k\<close>, for every \<open>k\<close>) the ids of all
  \<open>p:cNvPr\<close> elements of the document are still distinct integers.
\<close>

theorem ids_stay_distinct:
  assumes "builders_ok env" and "ids_distinct c"
  shows "\<exists>c'. apply_ops env c (take k ops) = Some c' \<and> ids_distinct c'"
proof -
  from apply_ops_steps[OF assms(1), of c "take k ops"] obtain c' where
    c': "apply_ops env c (take k ops) = Some c'" "op_step\<^sup>*\<^sup>* c c'" by blast
  from c'(2) assms(2) have "ids_distinct c'"
    by (induction rule: rtranclp_induct) (auto intro: ids_distinct_op_step)
  with c'(1) show ?thesis by blast
qed

theorem ids_stay_distinct_witness:
  "builders_ok ex_env \<and> ids_distinct ex_top
   \<and> map_option scan_ids (apply_ops ex_env ex_top ex_ops) = Some (Inr [1, 2, 4, 3, 5, 6, 7, 8, 9])
   \<and> (\<exists>c'. apply_ops ex_env ex_top ex_ops = Some c' \<and> ids_distinct c')"
proof -
  have d: "ids_distinct ex_top" by code_simp
  have v: "map_option scan_ids (apply_ops ex_env ex_top ex_ops) = Some (Inr [1, 2, 4, 3, 5, 6, 7, 8, 9])"
    by code_simp
  from ids_stay_distinct[OF builders_ok_ex_env d, of "length ex_ops" ex_ops]
  have "\<exists>c'. apply_ops ex_env ex_top ex_ops = Some c' \<and> ids_distinct c'" by simp
  with builders_ok_ex_env d v show ?thesis by blast
qed

section \<open>The sequence of shapes and the children of the backing element\<close>

lemma appended_fields:
  "spTree (appended c n sh) = elm_append (spTree c) n"
  "shapes (appended c n sh) = shapes c @ [sh]"
  "parents (appended c n sh) = parents c"
  "slide (appended c n sh) = slide c"
  by (simp_all add: appended_def shapes_append_def spTree_append_def)

lemma kids_elm_append: "kids (elm_append e n) = kids e @ [n]"
  by (simp add: elm_append_def)













section \<open>Names\<close>

text \<open>
  C2, as the claim states it, fails: the names are distinct, and \<open>add_picture\<close> gives the new
  picture the id 2 and with it the name of the picture that is already there.
\<close>

theorem add_picture_duplicate_name_counterexample:
  "ids_distinct ex_renamed \<and> names_distinct ex_renamed
   \<and> map_option scan_names (apply_ops ex_env ex_renamed [AddPicture ''a.png'' 0 0 None None])
       = Some [[], ''Picture 1'', ''Picture 1'']
   \<and> map_option names_distinct (apply_ops ex_env ex_renamed [AddPicture ''a.png'' 0 0 None None])
       = Some False"
  by code_simp

lemma set_scan_names:
  "(name \<in> set (scan_names c)) = (\<exists>a\<in>set (doc_attribs c). map_of a ''name'' = Some name)"
proof -
  have "(y \<in> set (List.map_filter f xs)) = (\<exists>x\<in>set xs. f x = Some y)" for f :: "'a \<Rightarrow> 'b option" and xs y
    by (induction xs) (auto split: option.splits)
  then show ?thesis by (simp add: scan_names_attribs)
qed

lemma names_distinct_free_step:
  assumes "names_distinct c" and "carries n i name" and "name \<notin> set (scan_names c)"
  shows "names_distinct (appended c n sh)"
proof -
  from scan_names_step[OF assms(2), of c sh]
  have "mset (scan_names (appended c n sh)) = mset (name # scan_names c)" by simp
  then have "distinct (scan_names (appended c n sh)) = distinct (name # scan_names c)"
    by (rule mset_eq_imp_distinct_iff)
  with assms(1,3) show ?thesis by (simp add: names_distinct_def)
qed

lemma names_distinct_clone_step: "names_distinct c \<Longrightarrow> clone_step c c' \<Longrightarrow> names_distinct c'"
  by (auto simp: clone_step_def intro: names_distinct_free_step)

lemma convention_name_free:
  assumes "follows_convention c" and "next_shape_id c = Inr i"
  shows "fmt_name b (i - 1) \<notin> set (scan_names c)"
proof
  assume "fmt_name b (i - 1) \<in> set (scan_names c)"
  then obtain a where a: "a \<in> set (doc_attribs c)" "map_of a ''name'' = Some (fmt_name b (i - 1))"
    by (auto simp: set_scan_names)
  with assms(1) have "id_of_attrib a = Inr (i - 1 + 1)" unfolding follows_convention_def by blast
  then have ia: "id_of_attrib a = Inr i" by simp
  from next_shape_id_fresh[OF assms(2)] obtain ids where
    ids: "scan_ids c = Inr ids" "i \<notin> set ids" by blast
  from ids(1) have "ids = map (\<lambda>a. projr (id_of_attrib a)) (doc_attribs c)"
    by (simp add: scan_ids_Inr_iff)
  with a(1) ia have "i \<in> set ids" by force
  with ids(2) show False by simp
qed

lemma clone_step_under_convention:
  assumes "follows_convention c" and "clone_step c c'"
  shows "add_step c c'"
proof -
  from assms(2) obtain i b k n sh where
    s: "next_shape_id c = Inr i" "i - 1 \<le> k"
       "\<forall>m. i - 1 \<le> m \<and> m < k \<longrightarrow> fmt_name b m \<in> set (scan_names c)"
       "carries n i (fmt_name b k)" "\<not> is_skipped (tag n)" "element sh = n" "c' = appended c n sh"
    unfolding clone_step_def by blast
  from convention_name_free[OF assms(1) s(1), of b] s(3) have "\<not> i - 1 < k" by auto
  with s(2) have "k = i - 1" by simp
  with s show ?thesis unfolding add_step_def by blast
qed

lemma set_doc_attribs_step:
  "carries n i name \<Longrightarrow>
     \<exists>a. set (doc_attribs (appended c n sh)) = insert a (set (doc_attribs c))
          \<and> id_of_attrib a = Inr i \<and> map_of a ''name'' = Some name"
proof -
  assume "carries n i name"
  from doc_attribs_step[OF this, of c sh] obtain a where
    a: "mset (doc_attribs (appended c n sh)) = add_mset a (mset (doc_attribs c))"
       "id_of_attrib a = Inr i" "map_of a ''name'' = Some name" by blast
  from a(1) have "set (doc_attribs (appended c n sh)) = insert a (set (doc_attribs c))"
    by (metis set_mset_add_mset_insert set_mset_mset)
  with a(2,3) show ?thesis by blast
qed

lemma convention_add_step:
  assumes "follows_convention c" and "add_step c c'"
  shows "follows_convention c' \<and> (names_distinct c \<longrightarrow> names_distinct c')"
proof -
  from assms(2) obtain i b n sh where
    s: "next_shape_id c = Inr i" "carries n i (fmt_name b (i - 1))" "c' = appended c n sh"
    unfolding add_step_def by blast
  from set_doc_attribs_step[OF s(2), of c sh] obtain a where
    a: "set (doc_attribs c') = insert a (set (doc_attribs c))"
       "id_of_attrib a = Inr i" "map_of a ''name'' = Some (fmt_name b (i - 1))"
    using s(3) by blast
  have "id_of_attrib x = Inr (m + 1)"
    if "x \<in> set (doc_attribs c')" "map_of x ''name'' = Some (fmt_name b' m)" for x b' m
  proof (cases "x = a")
    case True
    with that(2) a(3) have "fmt_name b (i - 1) = fmt_name b' m" by simp
    from fmt_name_inj[OF this] have "m = i - 1" by simp
    with True a(2) show ?thesis by simp
  next
    case False
    with that(1) a(1) have "x \<in> set (doc_attribs c)" by simp
    with assms(1) that(2) show ?thesis unfolding follows_convention_def by blast
  qed
  then have "follows_convention c'" unfolding follows_convention_def by blast
  moreover have "names_distinct c'" if "names_distinct c"
    using names_distinct_free_step[OF that s(2) convention_name_free[OF assms(1) s(1)], of sh] s(3)
    by simp
  ultimately show ?thesis by blast
qed

lemma convention_op_step:
  assumes "follows_convention c \<and> names_distinct c" and "op_step c c'"
  shows "follows_convention c' \<and> names_distinct c'"
proof -
  from assms(2) clone_step_under_convention[of c c'] assms(1) have "add_step c c'"
    by (auto simp: op_step_def)
  from convention_add_step[OF _ this] assms(1) show ?thesis by blast
qed

lemma clone_layout_placeholders_clone_steps:
  assumes "builders_ok env"
  shows "\<exists>r c'. clone_layout_placeholders env c layout = Some (r, c') \<and> clone_step\<^sup>*\<^sup>* c c'"
proof (induction layout arbitrary: c)
  case Nil
  show ?case by simp
next
  case (Cons sp sps)
  show ?case
  proof (cases "\<not> is_placeholder env sp \<or> ph_type env (Placeholder sp) \<in> set latent_ph_types")
    case True
    with Cons[of c] show ?thesis by auto
  next
    case False
    from clone_layout_placeholder_step[OF assms, of c "Placeholder sp"] obtain r c1 where
      s: "clone_layout_placeholder env c (Placeholder sp) = Some (r, c1)" "c1 = c \<or> clone_step c c1"
      by blast
    from s(2) have st: "clone_step\<^sup>*\<^sup>* c c1" by auto
    show ?thesis
    proof (cases r)
      case (Inl err)
      with False s(1) st show ?thesis by simp
    next
      case (Inr shape)
      from Cons[of c1] obtain r' c' where
        "clone_layout_placeholders env c1 sps = Some (r', c')" "clone_step\<^sup>*\<^sup>* c1 c'" by blast
      with False s(1) st Inr show ?thesis by auto
    qed
  qed
qed

text \<open>
  C2, amended. When the names in the document are distinct and follow the naming
  convention (a name made of a basename, a space and a number \<open>n\<close> is the name of the element
  with id \<open>n + 1\<close>), every sequence of add and clone operations returns and after each of
  them the names are distinct and follow the convention; there the name of a new shape
  is its basename with the id less one, with no search. For distinct names that do not
  follow the convention, cloning the placeholders of a layout still leaves all names
  distinct.
\<close>

theorem names_stay_distinct_under_convention:
  assumes "builders_ok env" and "names_distinct c"
  shows "(follows_convention c \<longrightarrow>
           (\<exists>c'. apply_ops env c (take k ops) = Some c' \<and> names_distinct c' \<and> follows_convention c'))
         \<and> (\<exists>r c'. clone_layout_placeholders env c layout = Some (r, c') \<and> names_distinct c')"
proof (intro conjI impI)
  assume f: "follows_convention c"
  from apply_ops_steps[OF assms(1), of c "take k ops"] obtain c' where
    c': "apply_ops env c (take k ops) = Some c'" "op_step\<^sup>*\<^sup>* c c'" by blast
  from f assms(2) have "follows_convention c \<and> names_distinct c" by simp
  with c'(2) have "follows_convention c' \<and> names_distinct c'"
  proof (induction rule: rtranclp_induct)
    case base
    then show ?case .
  next
    case (step y z)
    from convention_op_step[OF step.IH[OF step.prems] step.hyps(2)] show ?case .
  qed
  with c'(1) show "\<exists>c'. apply_ops env c (take k ops) = Some c' \<and> names_distinct c' \<and> follows_convention c'"
    by blast
next
  from clone_layout_placeholders_clone_steps[OF assms(1), of c layout] obtain r c' where
    c': "clone_layout_placeholders env c layout = Some (r, c')" "clone_step\<^sup>*\<^sup>* c c'" by blast
  from c'(2) assms(2) have "names_distinct c'"
    by (induction rule: rtranclp_induct) (auto intro: names_distinct_clone_step)
  with c'(1) show "\<exists>r c'. clone_layout_placeholders env c layout = Some (r, c') \<and> names_distinct c'"
    by blast
qed

lemma fmt_name_ne: "fmt_name b n \<noteq> []"
  by (simp add: fmt_name_def)

lemma convention_attrib:
  assumes "map_of a ''name'' = Some (fmt_name b0 n0)" and "id_of_attrib a = Inr (n0 + 1)"
  shows "\<forall>b n. map_of a ''name'' = Some (fmt_name b n) \<longrightarrow> id_of_attrib a = Inr (n + 1)"
proof (intro allI impI)
  fix b n assume "map_of a ''name'' = Some (fmt_name b n)"
  with assms(1) have "fmt_name b0 n0 = fmt_name b n" by simp
  from fmt_name_inj[OF this] assms(2) show "id_of_attrib a = Inr (n + 1)" by simp
qed

lemma follows_convention_ex_top: "follows_convention ex_top"
proof -
  have d: "doc_attribs ex_top =
      [[(''id'', ''1''), (''name'', [])], [(''id'', ''2''), (''name'', ''Group 1'')],
       [(''id'', ''4''), (''name'', ''Rectangle 3'')]]"
    by code_simp
  have g: "''Group 1'' = fmt_name ''Group'' 1" and r: "''Rectangle 3'' = fmt_name ''Rectangle'' 3"
    by (simp_all add: str_eval)
  have i2: "id_of_attrib [(''id'', ''2''), (''name'', ''Group 1'')] = Inr (1 + 1)"
    and i4: "id_of_attrib [(''id'', ''4''), (''name'', ''Rectangle 3'')] = Inr (3 + 1)"
    by code_simp+
  have a1: "\<forall>b n. map_of [(''id'', ''1''), (''name'', [])] ''name'' = Some (fmt_name b n) \<longrightarrow>
      id_of_attrib [(''id'', ''1''), (''name'', [])] = Inr (n + 1)"
  proof (intro allI impI)
    fix b n assume "map_of [(''id'', ''1''), (''name'', [])] ''name'' = Some (fmt_name b n)"
    then have "fmt_name b n = []" by simp
    with fmt_name_ne[of b n] show "id_of_attrib [(''id'', ''1''), (''name'', [])] = Inr (n + 1)"
      by simp
  qed
  have a2: "\<forall>b n. map_of [(''id'', ''2''), (''name'', ''Group 1'')] ''name'' = Some (fmt_name b n) \<longrightarrow>
      id_of_attrib [(''id'', ''2''), (''name'', ''Group 1'')] = Inr (n + 1)"
    by (rule convention_attrib[OF _ i2]) (simp add: g)
  have a3: "\<forall>b n. map_of [(''id'', ''4''), (''name'', ''Rectangle 3'')] ''name'' = Some (fmt_name b n) \<longrightarrow>
      id_of_attrib [(''id'', ''4''), (''name'', ''Rectangle 3'')] = Inr (n + 1)"
    by (rule convention_attrib[OF _ i4]) (simp add: r)
  from a1 a2 a3 show ?thesis unfolding follows_convention_def d by simp
qed

theorem names_stay_distinct_under_convention_witness:
  "builders_ok ex_env \<and> names_distinct ex_top \<and> follows_convention ex_top
   \<and> (\<exists>c'. apply_ops ex_env ex_top ex_ops = Some c' \<and> names_distinct c' \<and> follows_convention c')
   \<and> map_option scan_names (apply_ops ex_env ex_top ex_ops) =
       Some [[], ''Group 1'', ''Rectangle 3'', ''TextBox 2'', ''Title 4'',
             ''Vertical Text Placeholder 5'', ''Picture 6'', ''Rectangle 7'', ''Table 8'']
   \<and> names_distinct ex_taken
   \<and> (\<exists>r c'. clone_layout_placeholders ex_env ex_taken ex_layout = Some (r, c') \<and> names_distinct c')
   \<and> map_option (\<lambda>p. scan_names (snd p)) (clone_layout_placeholders ex_env ex_taken ex_layout) =
       Some [[], ''Vertical Text Placeholder 4'', ''Vertical Text Placeholder 5'', ''Title 3'',
             ''Vertical Text Placeholder 6'']"
proof -
  have n: "names_distinct ex_top" and t: "names_distinct ex_taken" by code_simp+
  have v: "map_option scan_names (apply_ops ex_env ex_top ex_ops) =
       Some [[], ''Group 1'', ''Rectangle 3'', ''TextBox 2'', ''Title 4'',
             ''Vertical Text Placeholder 5'', ''Picture 6'', ''Rectangle 7'', ''Table 8'']"
    by code_simp
  have w: "map_option (\<lambda>p. scan_names (snd p)) (clone_layout_placeholders ex_env ex_taken ex_layout) =
       Some [[], ''Vertical Text Placeholder 4'', ''Vertical Text Placeholder 5'', ''Title 3'',
             ''Vertical Text Placeholder 6'']"
    by code_simp
  from names_stay_distinct_under_convention[OF builders_ok_ex_env n, of "length ex_ops" ex_ops]
    follows_convention_ex_top
  have a: "\<exists>c'. apply_ops ex_env ex_top ex_ops = Some c' \<and> names_distinct c' \<and> follows_convention c'"
    by simp
  from names_stay_distinct_under_convention[OF builders_ok_ex_env t, of 0 "[]" ex_layout]
  have b: "\<exists>r c'. clone_layout_placeholders ex_env ex_taken ex_layout = Some (r, c') \<and> names_distinct c'"
    by blast
  show ?thesis
    by (intro conjI) (rule builders_ok_ex_env n follows_convention_ex_top a v t b w)+
qed

section \<open>Cloning the placeholders of a layout\<close>

lemma clone_layout_placeholder_cases:
  assumes "builders_ok env" and "clone_layout_placeholder env c ph = Some (r1, c1)"
  shows "(\<exists>err. r1 = Inl err \<and> c1 = c)
         \<or> (\<exists>i name n. next_shape_id c = Inr i \<and> name \<notin> set (scan_names c)
               \<and> new_placeholder_sp env i name (ph_type env ph) (ph_orient env ph)
                    (ph_sz env ph) (ph_idx env ph) = Inr n
               \<and> carries n i name
               \<and> r1 = Inr (Shape n) \<and> c1 = appended c n (Shape n))"
proof (cases "next_shape_id c")
  case (Inl err)
  with assms(2) show ?thesis by (auto simp: clone_layout_placeholder_def)
next
  case i: (Inr i)
  from next_ph_name_cases[of env c "ph_type env ph" i "ph_orient env ph"]
  show ?thesis
  proof
    assume "\<exists>err. next_ph_name env c (ph_type env ph) i (ph_orient env ph) = Some (Inl err)"
    with i assms(2) show ?thesis by (auto simp: clone_layout_placeholder_def)
  next
    assume "\<exists>b k. next_ph_name env c (ph_type env ph) i (ph_orient env ph) = Some (Inr (fmt_name b k))
         \<and> i - 1 \<le> k \<and> fmt_name b k \<notin> set (scan_names c)
         \<and> (\<forall>m. i - 1 \<le> m \<and> m < k \<longrightarrow> fmt_name b m \<in> set (scan_names c))"
    then obtain b k where
      nm: "next_ph_name env c (ph_type env ph) i (ph_orient env ph) = Some (Inr (fmt_name b k))"
      and k: "fmt_name b k \<notin> set (scan_names c)"
      by blast
    show ?thesis
    proof (cases "new_placeholder_sp env i (fmt_name b k) (ph_type env ph) (ph_orient env ph)
                    (ph_sz env ph) (ph_idx env ph)")
      case (Inl err)
      with i nm assms(2) show ?thesis by (auto simp: clone_layout_placeholder_def)
    next
      case r: (Inr sp)
      from builders_ok_placeholder[OF assms(1) r] have ca: "carries sp i (fmt_name b k)" by simp
      from i nm r assms(2) have "r1 = Inr (Shape sp)" "c1 = appended c sp (Shape sp)"
        by (auto simp: clone_layout_placeholder_def appended_eq Let_def)
      with i k r ca show ?thesis by blast
    qed
  qed
qed

lemma cloneable_iff:
  "cloneable env sp = (\<not> (\<not> is_placeholder env sp \<or> ph_type env (Placeholder sp) \<in> set latent_ph_types))"
  by (simp add: cloneable_def latent_ph_types_def)

lemma clone_layout_placeholders_skip:
  "\<not> cloneable env sp \<Longrightarrow>
     clone_layout_placeholders env c (sp # sps) = clone_layout_placeholders env c sps"
  by (auto simp: cloneable_iff Let_def)

lemma clone_layout_placeholders_clone:
  "cloneable env sp \<Longrightarrow>
     clone_layout_placeholders env c (sp # sps) =
       (case clone_layout_placeholder env c (Placeholder sp) of
          None \<Rightarrow> None
        | Some (Inl err, c') \<Rightarrow> Some (Inl err, c')
        | Some (Inr shape, c') \<Rightarrow> clone_layout_placeholders env c' sps)"
  by (simp add: cloneable_iff Let_def)

declare clone_layout_placeholders.simps(2) [simp del]

lemma cloned_nodes_Cons:
  "cloned_nodes env (sp # sps) (i # ids) (name # names) =
     new_placeholder_sp env i name (ph_type env (Placeholder sp)) (ph_orient env (Placeholder sp))
       (ph_sz env (Placeholder sp)) (ph_idx env (Placeholder sp))
     # cloned_nodes env sps ids names"
  by (simp add: cloned_nodes_def)

lemma clone_layout_placeholders_prefix:
  assumes "builders_ok env" and "scan_ids c = Inr ids0"
    and "clone_layout_placeholders env c layout = Some (r, c')"
  shows "\<exists>ids names news.
           length ids = length news \<and> length names = length news
           \<and> kids (spTree c') = kids (spTree c) @ news
           \<and> shapes c' = shapes c @ map Shape news
           \<and> map Inr news = cloned_nodes env (filter (cloneable env) layout) ids names
           \<and> distinct ids \<and> set ids \<inter> set ids0 = {}
           \<and> distinct names \<and> set names \<inter> set (scan_names c) = {}
           \<and> ((r = Inr ()) = (length news = length (filter (cloneable env) layout)))
           \<and> length news \<le> length (filter (cloneable env) layout)"
  using assms(2,3)
proof (induction layout arbitrary: c ids0)
  case Nil
  then have "c' = c" "r = Inr ()" by simp_all
  then have "length ([]::int list) = length ([]::elm list) \<and> length ([]::string list) = length ([]::elm list)
           \<and> kids (spTree c') = kids (spTree c) @ []
           \<and> shapes c' = shapes c @ map Shape []
           \<and> map Inr [] = cloned_nodes env (filter (cloneable env) []) [] []
           \<and> distinct ([]::int list) \<and> set [] \<inter> set ids0 = {}
           \<and> distinct ([]::string list) \<and> set [] \<inter> set (scan_names c) = {}
           \<and> ((r = Inr ()) = (length ([]::elm list) = length (filter (cloneable env) [])))
           \<and> length ([]::elm list) \<le> length (filter (cloneable env) [])"
    by (simp add: cloned_nodes_def)
  then show ?case by blast
next
  case (Cons sp sps)
  show ?case
  proof (cases "cloneable env sp")
    case False
    from Cons.prems(2) clone_layout_placeholders_skip[OF False, of c sps]
    have "clone_layout_placeholders env c sps = Some (r, c')" by simp
    from Cons.IH[OF Cons.prems(1) this] False show ?thesis by simp
  next
    case True
    note unf = clone_layout_placeholders_clone[OF True, of c sps]
    from clone_layout_placeholder_step[OF assms(1), of c "Placeholder sp"] obtain r1 c1 where
      one: "clone_layout_placeholder env c (Placeholder sp) = Some (r1, c1)" by blast
    from clone_layout_placeholder_cases[OF assms(1) one]
    show ?thesis
    proof
      assume "\<exists>err. r1 = Inl err \<and> c1 = c"
      then obtain err where e: "r1 = Inl err" "c1 = c" by blast
      with Cons.prems(2) one have "r = Inl err" "c' = c" by (simp_all add: unf)
      with True
      have "length ([]::int list) = length ([]::elm list) \<and> length ([]::string list) = length ([]::elm list)
           \<and> kids (spTree c') = kids (spTree c) @ []
           \<and> shapes c' = shapes c @ map Shape []
           \<and> map Inr [] = cloned_nodes env (filter (cloneable env) (sp # sps)) [] []
           \<and> distinct ([]::int list) \<and> set [] \<inter> set ids0 = {}
           \<and> distinct ([]::string list) \<and> set [] \<inter> set (scan_names c) = {}
           \<and> ((r = Inr ()) = (length ([]::elm list) = length (filter (cloneable env) (sp # sps))))
           \<and> length ([]::elm list) \<le> length (filter (cloneable env) (sp # sps))"
        by (simp add: cloned_nodes_def)
      then show ?thesis by blast
    next
      assume "\<exists>i name n. next_shape_id c = Inr i \<and> name \<notin> set (scan_names c)
               \<and> new_placeholder_sp env i name (ph_type env (Placeholder sp)) (ph_orient env (Placeholder sp))
                    (ph_sz env (Placeholder sp)) (ph_idx env (Placeholder sp)) = Inr n
               \<and> carries n i name
               \<and> r1 = Inr (Shape n) \<and> c1 = appended c n (Shape n)"
      then obtain i name n where
        s: "next_shape_id c = Inr i" "name \<notin> set (scan_names c)"
           "new_placeholder_sp env i name (ph_type env (Placeholder sp)) (ph_orient env (Placeholder sp))
                    (ph_sz env (Placeholder sp)) (ph_idx env (Placeholder sp)) = Inr n"
           "carries n i name" "c1 = appended c n (Shape n)" and r1: "r1 = Inr (Shape n)"
        by blast
      from next_shape_id_fresh[OF s(1)] Cons.prems(1) have fresh: "i \<notin> set ids0" by auto
      from scan_ids_step[OF Cons.prems(1) s(4), of "Shape n"] s(5) obtain ids1 where
        ids1: "scan_ids c1 = Inr ids1" "mset ids1 = add_mset i (mset ids0)" by blast
      from ids1(2) have set1: "set ids1 = insert i (set ids0)"
        by (metis set_mset_add_mset_insert set_mset_mset)
      from scan_names_step[OF s(4), of c "Shape n"] s(5)
      have "mset (scan_names c1) = add_mset name (mset (scan_names c))" by simp
      then have setn: "set (scan_names c1) = insert name (set (scan_names c))"
        by (metis set_mset_add_mset_insert set_mset_mset)
      from Cons.prems(2) one r1 have rest: "clone_layout_placeholders env c1 sps = Some (r, c')"
        by (simp add: unf)
      from Cons.IH[OF ids1(1) rest] obtain ids names news where
        ih: "length ids = length news" "length names = length news"
            "kids (spTree c') = kids (spTree c1) @ news"
            "shapes c' = shapes c1 @ map Shape news"
            "map Inr news = cloned_nodes env (filter (cloneable env) sps) ids names"
            "distinct ids" "set ids \<inter> set ids1 = {}"
            "distinct names" "set names \<inter> set (scan_names c1) = {}"
            "(r = Inr ()) = (length news = length (filter (cloneable env) sps))"
            "length news \<le> length (filter (cloneable env) sps)"
        by blast
      from ih s True fresh set1 setn
      have "length (i # ids) = length (n # news) \<and> length (name # names) = length (n # news)
           \<and> kids (spTree c') = kids (spTree c) @ (n # news)
           \<and> shapes c' = shapes c @ map Shape (n # news)
           \<and> map Inr (n # news) = cloned_nodes env (filter (cloneable env) (sp # sps)) (i # ids) (name # names)
           \<and> distinct (i # ids) \<and> set (i # ids) \<inter> set ids0 = {}
           \<and> distinct (name # names) \<and> set (name # names) \<inter> set (scan_names c) = {}
           \<and> ((r = Inr ()) = (length (n # news) = length (filter (cloneable env) (sp # sps))))
           \<and> length (n # news) \<le> length (filter (cloneable env) (sp # sps))"
        by (auto simp: appended_fields kids_elm_append cloned_nodes_Cons)
      then show ?thesis by blast
    qed
  qed
qed

lemma clone_layout_placeholder_succeeds:
  assumes "scan_ids c = Inr ids0"
    and "map_of (slide_ph_basenames env) (ph_type env ph) \<noteq> None"
    and "\<forall>i name. \<exists>e. new_placeholder_sp env i name (ph_type env ph) (ph_orient env ph)
                          (ph_sz env ph) (ph_idx env ph) = Inr e"
  shows "\<exists>sh c1. clone_layout_placeholder env c ph = Some (Inr sh, c1)"
proof -
  from assms(1) obtain i where i: "next_shape_id c = Inr i" by (simp add: next_shape_id_scan)
  from assms(2) obtain b0 where b0: "map_of (slide_ph_basenames env) (ph_type env ph) = Some b0"
    by blast
  from next_ph_name_cases[of env c "ph_type env ph" i "ph_orient env ph"] b0
  obtain b k where
    nm: "next_ph_name env c (ph_type env ph) i (ph_orient env ph) = Some (Inr (fmt_name b k))"
    by (auto simp: next_ph_name_def Let_def)
  from assms(3) obtain e where
    e: "new_placeholder_sp env i (fmt_name b k) (ph_type env ph) (ph_orient env ph)
          (ph_sz env ph) (ph_idx env ph) = Inr e" by blast
  from i nm e show ?thesis by (simp add: clone_layout_placeholder_def Let_def)
qed

lemma clone_layout_placeholders_succeeds:
  assumes "builders_ok env" and "scan_ids c = Inr ids0" and "clone_ready env layout"
  shows "\<exists>c'. clone_layout_placeholders env c layout = Some (Inr (), c')"
  using assms(2,3)
proof (induction layout arbitrary: c ids0)
  case Nil
  show ?case by simp
next
  case (Cons sp sps)
  from Cons.prems(2) have rd: "clone_ready env sps" by (simp add: clone_ready_def)
  show ?case
  proof (cases "cloneable env sp")
    case False
    from Cons.IH[OF Cons.prems(1) rd] clone_layout_placeholders_skip[OF False, of c sps]
    show ?thesis by simp
  next
    case True
    with Cons.prems(2) have
      t: "map_of (slide_ph_basenames env) (ph_type env (Placeholder sp)) \<noteq> None"
      and b: "\<forall>i name. \<exists>e. new_placeholder_sp env i name (ph_type env (Placeholder sp))
                (ph_orient env (Placeholder sp)) (ph_sz env (Placeholder sp))
                (ph_idx env (Placeholder sp)) = Inr e"
      by (simp_all add: clone_ready_def)
    from clone_layout_placeholder_succeeds[OF Cons.prems(1) t b] obtain sh c1 where
      one: "clone_layout_placeholder env c (Placeholder sp) = Some (Inr sh, c1)" by blast
    from clone_layout_placeholder_cases[OF assms(1) one] obtain i name n where
      s: "carries n i name" "c1 = appended c n (Shape n)" by blast
    from scan_ids_step[OF Cons.prems(1) s(1), of "Shape n"] s(2) obtain ids1 where
      "scan_ids c1 = Inr ids1" by blast
    from Cons.IH[OF this rd] obtain c' where "clone_layout_placeholders env c1 sps = Some (Inr (), c')"
      by blast
    with one show ?thesis by (simp add: clone_layout_placeholders_clone[OF True])
  qed
qed

lemma clone_ready_filter:
  "clone_ready env layout =
     (\<forall>sp\<in>set (filter (cloneable env) layout).
        map_of (slide_ph_basenames env) (ph_type env (Placeholder sp)) \<noteq> None
        \<and> (\<forall>i name. \<exists>e.
              new_placeholder_sp env i name (ph_type env (Placeholder sp))
                (ph_orient env (Placeholder sp)) (ph_sz env (Placeholder sp))
                (ph_idx env (Placeholder sp)) = Inr e))"
  by (auto simp: clone_ready_def)

text \<open>
  C5. When the ids in the document read as integers and the builders give nodes that
  carry their id and name, \<open>_clone_layout_placeholders\<close> returns or raises (it does not
  loop), and it has then appended to the children of the backing element, and wrapped as
  \<open>_Shape\<close> to the sequence, one node for each of the first shapes of the layout that are
  placeholders of a type other than date, slide number and footer, in the order of the
  layout: for all of them exactly when it returns, for those before the exception when it
  raises. It returns whenever every such shape has a type of the basename table and the
  placeholder builder gives a node for it. Each node is what the placeholder builder
  gives for the type, orientation, size and idx of its layout placeholder, an id and a
  name; the ids are distinct and none of them was in the document, and so are the names.
\<close>

theorem clone_layout_placeholders_copies:
  assumes "builders_ok env" and "scan_ids c = Inr ids0"
  shows "\<exists>r c' ids names news.
           clone_layout_placeholders env c layout = Some (r, c')
           \<and> length ids = length news \<and> length names = length news
           \<and> kids (spTree c') = kids (spTree c) @ news
           \<and> shapes c' = shapes c @ map Shape news
           \<and> map Inr news = cloned_nodes env (filter (cloneable env) layout) ids names
           \<and> distinct ids \<and> set ids \<inter> set ids0 = {}
           \<and> distinct names \<and> set names \<inter> set (scan_names c) = {}
           \<and> length news \<le> length (filter (cloneable env) layout)
           \<and> ((r = Inr ()) = (length news = length (filter (cloneable env) layout)))
           \<and> (clone_ready env layout \<longrightarrow> r = Inr ())"
proof -
  from clone_layout_placeholders_steps[OF assms(1), of c layout] obtain r c' where
    c': "clone_layout_placeholders env c layout = Some (r, c')" by blast
  from clone_layout_placeholders_prefix[OF assms c'] obtain ids names news where
    p: "length ids = length news" "length names = length news"
       "kids (spTree c') = kids (spTree c) @ news"
       "shapes c' = shapes c @ map Shape news"
       "map Inr news = cloned_nodes env (filter (cloneable env) layout) ids names"
       "distinct ids" "set ids \<inter> set ids0 = {}"
       "distinct names" "set names \<inter> set (scan_names c) = {}"
       "(r = Inr ()) = (length news = length (filter (cloneable env) layout))"
       "length news \<le> length (filter (cloneable env) layout)"
    by blast
  have "r = Inr ()" if "clone_ready env layout"
    using clone_layout_placeholders_succeeds[OF assms that] c' by simp
  with c' p show ?thesis by blast
qed

theorem clone_layout_placeholders_copies_witness:
  "builders_ok ex_env \<and> scan_ids ex_top = Inr [1, 2, 4] \<and> clone_ready ex_env ex_layout
   \<and> filter (cloneable ex_env) ex_layout =
        [Shape (ex_ph_sp ''2'' ''Title 1'' ''title'' ''horz'' ''0''),
         Shape (ex_ph_sp ''5'' ''Text Placeholder 4'' ''body'' ''vert'' ''1'')]
   \<and> (\<exists>c' ids names news.
         clone_layout_placeholders ex_env ex_top ex_layout = Some (Inr (), c')
         \<and> length news = 2
         \<and> kids (spTree c') = kids (spTree ex_top) @ news
         \<and> shapes c' = shapes ex_top @ map Shape news
         \<and> map Inr news = cloned_nodes ex_env (filter (cloneable ex_env) ex_layout) ids names
         \<and> distinct ids \<and> set ids \<inter> set [1, 2, 4] = {}
         \<and> distinct names \<and> set names \<inter> set (scan_names ex_top) = {})
   \<and> map_option (\<lambda>p. map Inr (drop 3 (kids (spTree (snd p)))))
        (clone_layout_placeholders ex_env ex_top ex_layout) =
        Some [new_placeholder_sp ex_env 3 ''Title 2'' ''title'' ''horz'' ''full'' 0,
              new_placeholder_sp ex_env 5 ''Vertical Text Placeholder 4'' ''body'' ''vert'' ''full'' 1]
   \<and> map_option (\<lambda>p. (fst p, length (shapes (snd p))))
        (clone_layout_placeholders ex_env ex_top ex_layout_chart) =
        Some (Inl (KeyError ''chart''), 3)"
proof -
  have s: "scan_ids ex_top = Inr [1, 2, 4]" by code_simp
  have f: "filter (cloneable ex_env) ex_layout =
        [Shape (ex_ph_sp ''2'' ''Title 1'' ''title'' ''horz'' ''0''),
         Shape (ex_ph_sp ''5'' ''Text Placeholder 4'' ''body'' ''vert'' ''1'')]"
    by code_simp
  have t1: "map_of (slide_ph_basenames ex_env)
              (ph_type ex_env (Placeholder (Shape (ex_ph_sp ''2'' ''Title 1'' ''title'' ''horz'' ''0''))))
            \<noteq> None"
    and t2: "map_of (slide_ph_basenames ex_env)
              (ph_type ex_env (Placeholder (Shape (ex_ph_sp ''5'' ''Text Placeholder 4'' ''body'' ''vert'' ''1''))))
            \<noteq> None"
    by code_simp+
  have b: "\<exists>e. new_placeholder_sp ex_env i name ptype orient sz idx = Inr e"
    for i name ptype orient sz idx
    by (simp add: ex_env_def)
  have rd: "clone_ready ex_env ex_layout"
    unfolding clone_ready_filter f using t1 t2 b by simp
  have v: "map_option (\<lambda>p. map Inr (drop 3 (kids (spTree (snd p)))))
        (clone_layout_placeholders ex_env ex_top ex_layout) =
        Some [new_placeholder_sp ex_env 3 ''Title 2'' ''title'' ''horz'' ''full'' 0,
              new_placeholder_sp ex_env 5 ''Vertical Text Placeholder 4'' ''body'' ''vert'' ''full'' 1]"
    by code_simp
  have x: "map_option (\<lambda>p. (fst p, length (shapes (snd p))))
        (clone_layout_placeholders ex_env ex_top ex_layout_chart) =
        Some (Inl (KeyError ''chart''), 3)"
    by code_simp
  from clone_layout_placeholders_copies[OF builders_ok_ex_env s, of ex_layout] rd
  obtain c' ids names news where
    w: "clone_layout_placeholders ex_env ex_top ex_layout = Some (Inr (), c')"
       "kids (spTree c') = kids (spTree ex_top) @ news"
       "shapes c' = shapes ex_top @ map Shape news"
       "map Inr news = cloned_nodes ex_env (filter (cloneable ex_env) ex_layout) ids names"
       "distinct ids" "set ids \<inter> set [1, 2, 4] = {}"
       "distinct names" "set names \<inter> set (scan_names ex_top) = {}"
       "length news = length (filter (cloneable ex_env) ex_layout)"
    by auto
  from w(9) have l: "length news = 2" by (simp only: f) simp
  from w(1) l w(2-8) have e: "\<exists>c' ids names news.
         clone_layout_placeholders ex_env ex_top ex_layout = Some (Inr (), c')
         \<and> length news = 2
         \<and> kids (spTree c') = kids (spTree ex_top) @ news
         \<and> shapes c' = shapes ex_top @ map Shape news
         \<and> map Inr news = cloned_nodes ex_env (filter (cloneable ex_env) ex_layout) ids names
         \<and> distinct ids \<and> set ids \<inter> set [1, 2, 4] = {}
         \<and> distinct names \<and> set names \<inter> set (scan_names ex_top) = {}"
    by blast
  show ?thesis
    by (intro conjI) (rule builders_ok_ex_env s rd f e v x)+
qed

end
